theory Spec2Isabelle
  imports Complex_Main "HOL-Library.Word" "HOL-Library.Monad_Syntax" "HOL-Library.Log_Nat"
begin

unbundle bit_operations_syntax

section \<open>The check-in record of \<^verbatim>\<open>checkin.go\<close>\<close>

text \<open>
  \<^verbatim>\<open>type CheckinRecord int64\<close>: one bit per day, bit 0 is today. The record is a
  64-bit word; \<open>sint\<close> reads it the way Go's \<^verbatim>\<open>int64\<close> does where the sign matters.
  Go's \<^verbatim>\<open>int\<close> (day numbers, window lengths, loop counters and counts) is modelled by
  \<open>int\<close>: the code only compares these values with 0 and 64 and increments counters
  that stay below 65, so no arithmetic on them can overflow.
\<close>

type_synonym CheckinRecord = "64 word"

text \<open>
  Go's shift \<^verbatim>\<open>x << n\<close> of an \<^verbatim>\<open>int64\<close> by a run-time count \<^verbatim>\<open>n\<close> of type \<^verbatim>\<open>int\<close>:
  a negative count is a run-time panic (\<open>None\<close>); otherwise the bits pushed beyond
  bit 63 are discarded, and a count of 64 or more gives 0.
\<close>

definition shl :: "CheckinRecord \<Rightarrow> int \<Rightarrow> CheckinRecord option" where
  "shl x n = (if n < 0 then None else Some (push_bit (nat n) x))"

definition NewCheckinRecord :: CheckinRecord where
  "NewCheckinRecord = 0"

definition FromInt64 :: "64 word \<Rightarrow> CheckinRecord" where
  "FromInt64 v = v"

definition ToInt64 :: "CheckinRecord \<Rightarrow> 64 word" where
  "ToInt64 c = c"

definition Checkin :: "CheckinRecord \<Rightarrow> CheckinRecord" where
  "Checkin c = c OR 1"

definition CheckinDay :: "CheckinRecord \<Rightarrow> int \<Rightarrow> CheckinRecord option" where
  "CheckinDay c day =
     (if day < 0 \<or> day \<ge> 64 then Some c
      else do { m \<leftarrow> shl 1 day; Some (c OR m) })"

definition IsCheckedToday :: "CheckinRecord \<Rightarrow> bool" where
  "IsCheckedToday c \<longleftrightarrow> c AND 1 = 1"

definition IsCheckedDay :: "CheckinRecord \<Rightarrow> int \<Rightarrow> bool option" where
  "IsCheckedDay c day =
     (if day < 0 \<or> day \<ge> 64 then Some False
      else do { m \<leftarrow> shl 1 day; Some (c AND m \<noteq> 0) })"

text \<open>\<^verbatim>\<open>ContinuousDays\<close>: the loop \<^verbatim>\<open>for i := 0; i < 64; i++\<close> with its \<^verbatim>\<open>break\<close>.\<close>

function ContinuousDays_loop :: "CheckinRecord \<Rightarrow> int \<Rightarrow> int \<Rightarrow> int option" where
  "ContinuousDays_loop c i count =
     (if i < 64 then
        do { m \<leftarrow> shl 1 i;
             if c AND m \<noteq> 0 then ContinuousDays_loop c (i + 1) (count + 1)
             else Some count }
      else Some count)"
  by pat_completeness auto
termination
  by (relation "measure (\<lambda>(c, i, count). nat (64 - i))") auto

definition ContinuousDays :: "CheckinRecord \<Rightarrow> int option" where
  "ContinuousDays c = ContinuousDays_loop c 0 0"

text \<open>\<^verbatim>\<open>TotalDaysInPeriod\<close>: the window is reset to 64 first, then counted.\<close>

function TotalDaysInPeriod_loop :: "CheckinRecord \<Rightarrow> int \<Rightarrow> int \<Rightarrow> int \<Rightarrow> int option" where
  "TotalDaysInPeriod_loop c days i count =
     (if i < days then
        do { m \<leftarrow> shl 1 i;
             TotalDaysInPeriod_loop c days (i + 1) (if c AND m \<noteq> 0 then count + 1 else count) }
      else Some count)"
  by pat_completeness auto
termination
  by (relation "measure (\<lambda>(c, days, i, count). nat (days - i))") auto

definition TotalDaysInPeriod :: "CheckinRecord \<Rightarrow> int \<Rightarrow> int option" where
  "TotalDaysInPeriod c days =
     (let days = (if days \<le> 0 \<or> days > 64 then 64 else days)
      in TotalDaysInPeriod_loop c days 0 0)"

definition ShiftDay :: "CheckinRecord \<Rightarrow> CheckinRecord" where
  "ShiftDay c = push_bit 1 c"

definition Clear :: "CheckinRecord \<Rightarrow> CheckinRecord" where
  "Clear c = 0"

text \<open>
  \<^verbatim>\<open>MaxContinuousDays\<close>: the early return for the empty record, then one pass over the
  64 bits carrying \<^verbatim>\<open>maxCount\<close> and \<^verbatim>\<open>currentCount\<close>.
\<close>

function MaxContinuousDays_loop ::
  "CheckinRecord \<Rightarrow> int \<Rightarrow> int \<Rightarrow> int \<Rightarrow> int option" where
  "MaxContinuousDays_loop c i maxCount currentCount =
     (if i < 64 then
        do { m \<leftarrow> shl 1 i;
             if c AND m \<noteq> 0 then
               (let currentCount = currentCount + 1;
                    maxCount = (if currentCount > maxCount then currentCount else maxCount)
                in MaxContinuousDays_loop c (i + 1) maxCount currentCount)
             else MaxContinuousDays_loop c (i + 1) maxCount 0 }
      else Some maxCount)"
  by pat_completeness auto
termination
  by (relation "measure (\<lambda>(c, i, maxCount, currentCount). nat (64 - i))") auto

definition MaxContinuousDays :: "CheckinRecord \<Rightarrow> int option" where
  "MaxContinuousDays c = (if c = 0 then Some 0 else MaxContinuousDays_loop c 0 0 0)"

section \<open>Go strings, runes and UTF-8\<close>

text \<open>
  A Go string is a sequence of bytes; \<open>string\<close> (a list of 8-bit characters) models it.
  The conversions \<^verbatim>\<open>[]rune(str)\<close> and \<^verbatim>\<open>string(runes)\<close> of \<^verbatim>\<open>StringWithDays\<close> decode and
  encode UTF-8 the way Go's run-time and its package \<^verbatim>\<open>unicode/utf8\<close> do: an invalid or
  short sequence decodes to \<^verbatim>\<open>RuneError\<close> (U+FFFD) of width 1, and a surrogate or a value
  above U+10FFFF encodes as \<^verbatim>\<open>RuneError\<close>. A rune (\<^verbatim>\<open>int32\<close>) is modelled by its code point.
\<close>

type_synonym rune = nat

definition RuneError :: rune where
  "RuneError = 0xFFFD"

text \<open>
  The table \<^verbatim>\<open>first\<close> of \<^verbatim>\<open>unicode/utf8\<close> with its accept ranges: for a leading byte, the
  length of the sequence and the bounds of the second byte.
\<close>

definition first_byte :: "nat \<Rightarrow> (nat \<times> nat \<times> nat) option" where
  "first_byte b0 =
     (if 0xC2 \<le> b0 \<and> b0 \<le> 0xDF then Some (2, 0x80, 0xBF)
      else if b0 = 0xE0 then Some (3, 0xA0, 0xBF)
      else if (0xE1 \<le> b0 \<and> b0 \<le> 0xEC) \<or> b0 = 0xEE \<or> b0 = 0xEF then Some (3, 0x80, 0xBF)
      else if b0 = 0xED then Some (3, 0x80, 0x9F)
      else if b0 = 0xF0 then Some (4, 0x90, 0xBF)
      else if 0xF1 \<le> b0 \<and> b0 \<le> 0xF3 then Some (4, 0x80, 0xBF)
      else if b0 = 0xF4 then Some (4, 0x80, 0x8F)
      else None)"

fun DecodeRune :: "string \<Rightarrow> rune \<times> nat" where
  "DecodeRune [] = (RuneError, 0)"
| "DecodeRune (c0 # cs) =
     (let b0 = of_char c0 in
      if b0 < 0x80 then (b0, 1)
      else case first_byte b0 of
        None \<Rightarrow> (RuneError, 1)
      | Some (sz, lo, hi) \<Rightarrow>
          if length cs + 1 < sz then (RuneError, 1)
          else let b1 = of_char (cs ! 0) in
          if b1 < lo \<or> hi < b1 then (RuneError, 1)
          else if sz \<le> 2 then ((b0 mod 32) * 64 + b1 mod 64, 2)
          else let b2 = of_char (cs ! 1) in
          if b2 < 0x80 \<or> 0xBF < b2 then (RuneError, 1)
          else if sz \<le> 3 then ((b0 mod 16) * 4096 + (b1 mod 64) * 64 + b2 mod 64, 3)
          else let b3 = of_char (cs ! 2) in
          if b3 < 0x80 \<or> 0xBF < b3 then (RuneError, 1)
          else ((b0 mod 8) * 262144 + (b1 mod 64) * 4096 + (b2 mod 64) * 64 + b3 mod 64, 4))"

lemma DecodeRune_size: "1 \<le> snd (DecodeRune (c0 # cs))"
  by (simp add: Let_def split: option.split prod.split)

function runes_of :: "string \<Rightarrow> rune list" where
  "runes_of [] = []"
| "runes_of (c0 # cs) =
     fst (DecodeRune (c0 # cs)) # runes_of (drop (snd (DecodeRune (c0 # cs))) (c0 # cs))"
  by pat_completeness auto
termination
proof (relation "measure length")
  fix c0 cs
  have "1 \<le> snd (DecodeRune (c0 # cs))" by (rule DecodeRune_size)
  then show "(drop (snd (DecodeRune (c0 # cs))) (c0 # cs), c0 # cs) \<in> measure length"
    by simp
qed simp

definition EncodeRune :: "rune \<Rightarrow> string" where
  "EncodeRune r =
     (if r \<le> 0x7F then [char_of r]
      else if r \<le> 0x7FF then [char_of (0xC0 + r div 64), char_of (0x80 + r mod 64)]
      else if 0x10FFFF < r \<or> (0xD800 \<le> r \<and> r \<le> 0xDFFF) then [CHR 0xEF, CHR 0xBF, CHR 0xBD]
      else if r \<le> 0xFFFF then
        [char_of (0xE0 + r div 4096), char_of (0x80 + (r div 64) mod 64), char_of (0x80 + r mod 64)]
      else
        [char_of (0xF0 + r div 262144), char_of (0x80 + (r div 4096) mod 64),
         char_of (0x80 + (r div 64) mod 64), char_of (0x80 + r mod 64)])"

definition string_of_runes :: "rune list \<Rightarrow> string" where
  "string_of_runes rs = concat (map EncodeRune rs)"

section \<open>Rendering\<close>

text \<open>The two literals of \<^verbatim>\<open>StringWithDays\<close>: U+2713 and U+2717 in UTF-8.\<close>

definition check_mark :: string where
  "check_mark = [CHR 0xE2, CHR 0x9C, CHR 0x93]"

definition cross_mark :: string where
  "cross_mark = [CHR 0xE2, CHR 0x9C, CHR 0x97]"

text \<open>The first loop of \<^verbatim>\<open>StringWithDays\<close>: one literal per day, today first.\<close>

function StringWithDays_loop :: "CheckinRecord \<Rightarrow> int \<Rightarrow> int \<Rightarrow> string \<Rightarrow> string option" where
  "StringWithDays_loop c days i result =
     (if i < days then
        do { m \<leftarrow> shl 1 i;
             StringWithDays_loop c days (i + 1)
               (if c AND m \<noteq> 0 then result @ check_mark else result @ cross_mark) }
      else Some result)"
  by pat_completeness auto
termination
  by (relation "measure (\<lambda>(c, days, i, result). nat (days - i))") auto

text \<open>
  The second loop swaps \<^verbatim>\<open>runes[i]\<close> and \<^verbatim>\<open>runes[j]\<close> while \<^verbatim>\<open>i < j\<close>; an index outside
  the slice is a run-time panic.
\<close>

function reverse_loop :: "rune list \<Rightarrow> int \<Rightarrow> int \<Rightarrow> rune list option" where
  "reverse_loop runes i j =
     (if i < j then
        (if i < 0 \<or> j < 0 \<or> int (length runes) \<le> i \<or> int (length runes) \<le> j then None
         else reverse_loop (runes[nat i := runes ! nat j, nat j := runes ! nat i]) (i + 1) (j - 1))
      else Some runes)"
  by pat_completeness auto
termination
  by (relation "measure (\<lambda>(runes, i, j). nat (j - i))") auto

definition StringWithDays :: "CheckinRecord \<Rightarrow> int \<Rightarrow> string option" where
  "StringWithDays c days =
     (let days = (if days \<le> 0 \<or> days > 64 then 64 else days) in
      do { str \<leftarrow> StringWithDays_loop c days 0 [];
           let runes = runes_of str;
           runes \<leftarrow> reverse_loop runes 0 (int (length runes) - 1);
           Some (string_of_runes runes) })"

definition String :: "CheckinRecord \<Rightarrow> string option" where
  "String c = StringWithDays c 7"

text \<open>
  \<^verbatim>\<open>fmt.Sprintf("0b%b", c)\<close>. The verb \<^verbatim>\<open>%b\<close> on a value whose kind is \<^verbatim>\<open>int64\<close> goes to
  \<^verbatim>\<open>fmtInteger\<close> of Go's package \<^verbatim>\<open>fmt\<close> with \<^verbatim>\<open>isSigned\<close> true (the \<^verbatim>\<open>String\<close> method is
  not consulted for \<^verbatim>\<open>%b\<close>): a negative value is negated as a \<^verbatim>\<open>uint64\<close>, the digits are
  produced from the least significant one while the value is at least 2, and a minus
  sign is put in front of a negative value.
\<close>

function fmt_bits :: "64 word \<Rightarrow> string" where
  "fmt_bits u =
     (if 2 \<le> u then fmt_bits (drop_bit 1 u) @ [char_of (48 + unat (u AND 1))]
      else [char_of (48 + unat u)])"
  by pat_completeness auto
termination
proof (relation "measure unat")
  fix u :: "64 word"
  assume "2 \<le> u"
  then have "2 \<le> unat u" by (simp add: word_le_nat_alt)
  then have "unat u div 2 < unat u" by simp
  then show "(drop_bit 1 u, u) \<in> measure unat"
    by (simp add: drop_bit_eq_div unat_div)
qed simp

definition fmtInteger_b :: "64 word \<Rightarrow> string" where
  "fmtInteger_b v =
     (let negative = (sint v < 0);
          u = (if negative then - v else v)
      in (if negative then ''-'' else []) @ fmt_bits u)"

definition Binary :: "CheckinRecord \<Rightarrow> string" where
  "Binary c = ''0b'' @ fmtInteger_b c"

section \<open>The check-in rate and \<^verbatim>\<open>float64\<close>\<close>

text \<open>
  A \<^verbatim>\<open>float64\<close> is an IEEE 754 double: a finite value is the rational number it
  stands for; the sign of zero is not represented (it only shows in a division by
  zero, which the guard of \<^verbatim>\<open>CheckinRate\<close> excludes).
\<close>

datatype float64 = Finite rat | PosInf | NegInf | NaN

text \<open>The exponent of a positive number: \<open>2 powi ilog2 x \<le> x < 2 powi (ilog2 x + 1)\<close>.\<close>

definition ilog2 :: "rat \<Rightarrow> int" where
  "ilog2 x =
     (if 1 \<le> x then int (floorlog 2 (nat \<lfloor>x\<rfloor>)) - 1
      else - int (floorlog 2 (nat (\<lceil>1 / x\<rceil> - 1))))"

text \<open>Rounding to the nearest integer, a tie to the even one.\<close>

definition round_half_even :: "rat \<Rightarrow> int" where
  "round_half_even m =
     (let f = \<lfloor>m\<rfloor>; d = m - of_int f
      in if d < 1 / 2 then f else if 1 / 2 < d then f + 1 else if even f then f else f + 1)"

text \<open>
  Rounding a number to \<^verbatim>\<open>float64\<close>, to nearest with ties to even: 53 significant bits,
  the unit in the last place never below \<open>2 powi - 1074\<close> (subnormal numbers), and
  infinity from \<open>2 powi 1024\<close> on.
\<close>

definition round64 :: "rat \<Rightarrow> float64" where
  "round64 x =
     (if x = 0 then Finite 0
      else let a = \<bar>x\<bar>;
               e = max (ilog2 a) (- 1022);
               u = 2 powi (e - 52);
               q = of_int (round_half_even (a / u)) * u
           in if 2 powi 1024 \<le> q then (if 0 < x then PosInf else NegInf)
              else Finite (if 0 < x then q else - q))"

text \<open>The conversion \<^verbatim>\<open>float64(n)\<close> of an integer and the division of two doubles.\<close>

definition float64_of_int :: "int \<Rightarrow> float64" where
  "float64_of_int n = round64 (of_int n)"

fun float64_div :: "float64 \<Rightarrow> float64 \<Rightarrow> float64" where
  "float64_div (Finite a) (Finite b) =
     (if b = 0 then (if a = 0 then NaN else if 0 < a then PosInf else NegInf)
      else round64 (a / b))"
| "float64_div (Finite a) PosInf = Finite 0"
| "float64_div (Finite a) NegInf = Finite 0"
| "float64_div PosInf (Finite b) = (if 0 \<le> b then PosInf else NegInf)"
| "float64_div NegInf (Finite b) = (if 0 \<le> b then NegInf else PosInf)"
| "float64_div _ _ = NaN"

text \<open>\<^verbatim>\<open>CheckinRate\<close>: the guard, then the total of the window over the days as given.\<close>

definition CheckinRate :: "CheckinRecord \<Rightarrow> int \<Rightarrow> float64 option" where
  "CheckinRate c days =
     (if days \<le> 0 then Some (Finite 0)
      else do { total \<leftarrow> TotalDaysInPeriod c days;
                Some (float64_div (float64_of_int total) (float64_of_int days)) })"

section \<open>Notions the properties are stated with\<close>

text \<open>
  The window length both \<^verbatim>\<open>TotalDaysInPeriod\<close> and \<^verbatim>\<open>StringWithDays\<close> work with after
  their first statement: a length that is not in \<open>[1, 64]\<close> is replaced by 64.
\<close>

definition window :: "int \<Rightarrow> nat" where
  "window days = (if days \<le> 0 \<or> 64 < days then 64 else nat days)"

text \<open>A run: the \<open>len\<close> bits from index \<open>a\<close> upwards are all set.\<close>

definition is_run :: "CheckinRecord \<Rightarrow> nat \<Rightarrow> nat \<Rightarrow> bool" where
  "is_run c a len \<longleftrightarrow> (\<forall>j \<in> {a..<a + len}. bit c j)"

text \<open>
  \<open>m\<close> is the length of a longest run among the bits below \<open>n\<close>: some run of that
  length lies below \<open>n\<close>, and no run below \<open>n\<close> is longer.
\<close>

definition longest_run :: "CheckinRecord \<Rightarrow> nat \<Rightarrow> nat \<Rightarrow> bool" where
  "longest_run c n m \<longleftrightarrow>
     (\<exists>a. a + m \<le> n \<and> is_run c a m) \<and> (\<forall>a len. a + len \<le> n \<and> is_run c a len \<longrightarrow> len \<le> m)"

text \<open>
  The invariant of the loop of \<^verbatim>\<open>MaxContinuousDays\<close> before it looks at bit \<open>i\<close>:
  \<open>cur\<close> is the length of the run that ends just below \<open>i\<close>, and \<open>mx\<close> is the length of a
  longest run below \<open>i\<close>.
\<close>

definition run_inv :: "CheckinRecord \<Rightarrow> nat \<Rightarrow> nat \<Rightarrow> nat \<Rightarrow> bool" where
  "run_inv c i mx cur \<longleftrightarrow>
     cur \<le> i \<and> is_run c (i - cur) cur \<and> (cur < i \<longrightarrow> \<not> bit c (i - cur - 1))
     \<and> longest_run c i mx"

text \<open>The glyph of a day, as bytes and as a rune.\<close>

definition glyph :: "bool \<Rightarrow> string" where
  "glyph b = (if b then check_mark else cross_mark)"

definition glyph_rune :: "bool \<Rightarrow> rune" where
  "glyph_rune b = (if b then 0x2713 else 0x2717)"

text \<open>
  The bits of a record from bit 63 down to bit 0 without the leading clear bits, as
  digits; the empty record is written as a single 0.
\<close>

definition bit_pattern :: "CheckinRecord \<Rightarrow> string" where
  "bit_pattern c =
     (if c = 0 then ''0''
      else map (\<lambda>b. if b then CHR ''1'' else CHR ''0'')
             (dropWhile Not (map (bit c) (rev [0..<64]))))"

declare StringWithDays_loop.simps [simp del]
declare reverse_loop.simps [simp del]
declare fmt_bits.simps [simp del]
declare ContinuousDays_loop.simps [simp del]
declare TotalDaysInPeriod_loop.simps [simp del]
declare MaxContinuousDays_loop.simps [simp del]

section \<open>Shifts and single-bit masks\<close>

lemma shl_nonneg: "0 \<le> n \<Longrightarrow> shl x n = Some (push_bit (nat n) x)"
  by (simp add: shl_def)

lemma test_mask: "(c AND push_bit n 1 \<noteq> 0) = bit c n" for c :: CheckinRecord
  by (simp only: bit_iff_and_push_bit_not_eq_0)

lemma test_mask_pow: "(c AND 2 ^ n \<noteq> 0) = bit c n" for c :: CheckinRecord
  using test_mask [of c n] by simp

lemma CheckinDay_in_range:
  "0 \<le> d \<Longrightarrow> d < 64 \<Longrightarrow> CheckinDay c d = Some (c OR push_bit (nat d) 1)"
  by (simp add: CheckinDay_def shl_nonneg)

lemma IsCheckedDay_in_range:
  "0 \<le> d \<Longrightarrow> d < 64 \<Longrightarrow> IsCheckedDay c d = Some (bit c (nat d))"
  by (simp add: IsCheckedDay_def shl_nonneg test_mask_pow)

lemma IsCheckedToday_bit: "IsCheckedToday c = bit c 0"
  by (simp add: IsCheckedToday_def and_one_eq bit_0 mod_2_eq_odd)

section \<open>Marking today\<close>

text \<open>
  C9. \<^verbatim>\<open>Checkin\<close> sets bit 0 and leaves every other bit as it was; applying it twice
  gives the same record as applying it once; the result is always checked today.
\<close>

theorem Checkin_idempotent:
  "Checkin (Checkin r) = Checkin r \<and> IsCheckedToday (Checkin r)
   \<and> bit (Checkin r) 0 \<and> (\<forall>k. 0 < k \<longrightarrow> bit (Checkin r) k = bit r k)"
  by (auto simp add: Checkin_def IsCheckedToday_bit bit_or_iff bit_1_iff ac_simps)

theorem Checkin_idempotent_witness:
  "Checkin (Checkin 4) = Checkin 4 \<and> IsCheckedToday (Checkin 4)
   \<and> bit (Checkin 4) 0 \<and> 0 < (2::nat) \<and> bit (Checkin 4) 2 = bit (4 :: CheckinRecord) 2
   \<and> bit (4 :: CheckinRecord) 2"
  using Checkin_idempotent [of 4] by (simp add: bit_numeral_Bit0_iff)

section \<open>Advancing one day\<close>

text \<open>
  C3. \<^verbatim>\<open>ShiftDay\<close> is the logical left shift by one bit: bit 0 of the result is clear,
  bit \<open>k\<close> of the result is bit \<open>k - 1\<close> of the record for \<open>1 \<le> k < 64\<close>, and bit 63 of
  the record is dropped (the result does not depend on it, and as an unsigned number it
  is twice the record modulo \<open>2 ^ 64\<close>). The record \<^verbatim>\<open>0b1\<close> becomes \<^verbatim>\<open>0b10\<close>, which is
  checked on day 1 and not checked today.
\<close>

theorem ShiftDay_logical_shift:
  "\<not> bit (ShiftDay r) 0
   \<and> (\<forall>k. 1 \<le> k \<and> k < 64 \<longrightarrow> bit (ShiftDay r) k = bit r (k - 1))
   \<and> ShiftDay (r OR push_bit 63 1) = ShiftDay r
   \<and> unat (ShiftDay r) = (2 * unat r) mod 2 ^ 64
   \<and> ShiftDay 1 = 2 \<and> IsCheckedDay (ShiftDay 1) 1 = Some True
   \<and> IsCheckedToday (ShiftDay 1) = False"
proof -
  have b0: "\<not> bit (ShiftDay r) 0"
    by (simp add: ShiftDay_def bit_0)
  have bk: "\<forall>k. 1 \<le> k \<and> k < 64 \<longrightarrow> bit (ShiftDay r) k = bit r (k - 1)"
    unfolding ShiftDay_def bit_push_bit_iff by (auto dest: bit_imp_le_length)
  have top: "ShiftDay (r OR push_bit 63 1) = ShiftDay r"
    unfolding ShiftDay_def
    by (rule bit_word_eqI) (auto simp only: bit_push_bit_iff bit_or_iff bit_1_iff, auto)
  have un: "unat (ShiftDay r) = (2 * unat r) mod 2 ^ 64"
    by (simp add: ShiftDay_def unat_word_ariths mult.commute)
  have ex: "ShiftDay 1 = 2" "IsCheckedDay (ShiftDay 1) 1 = Some True"
    "IsCheckedToday (ShiftDay 1) = False"
    by (simp_all add: ShiftDay_def IsCheckedDay_in_range IsCheckedToday_bit)
  from b0 bk top un ex show ?thesis by simp
qed

theorem ShiftDay_logical_shift_witness:
  "(1 \<le> (3::nat) \<and> 3 < (64::nat)) \<and> bit (ShiftDay 5) 3 = bit (5 :: CheckinRecord) 2
   \<and> bit (ShiftDay 5) 3 \<and> ShiftDay 5 = 10"
  using ShiftDay_logical_shift [of 5] by (simp add: ShiftDay_def)

section \<open>Marking and testing a given day\<close>

text \<open>
  C7. For a day outside \<open>[0, 64)\<close>, \<^verbatim>\<open>CheckinDay\<close> returns the record unchanged and
  \<^verbatim>\<open>IsCheckedDay\<close> returns false. Both return normally there (the shift that would
  panic on a negative count is never reached), and in fact for every day.
\<close>

theorem out_of_range_day:
  "(day < 0 \<or> 64 \<le> day \<longrightarrow> CheckinDay r day = Some r \<and> IsCheckedDay r day = Some False)
   \<and> CheckinDay r day \<noteq> None \<and> IsCheckedDay r day \<noteq> None"
  by (auto simp add: CheckinDay_def IsCheckedDay_def shl_def)

theorem out_of_range_day_witness:
  "((-1 :: int) < 0 \<or> (64 :: int) \<le> -1)
   \<and> CheckinDay 5 (-1) = Some 5 \<and> IsCheckedDay 5 (-1) = Some False
   \<and> ((64 :: int) < 0 \<or> (64 :: int) \<le> 64)
   \<and> CheckinDay 5 64 = Some 5 \<and> IsCheckedDay 5 64 = Some False"
  using out_of_range_day [of "-1" 5] out_of_range_day [of 64 5] by simp

text \<open>
  C10. For a day \<open>d\<close> in \<open>[0, 64)\<close>, \<^verbatim>\<open>CheckinDay\<close> sets bit \<open>d\<close> and changes no other
  bit: \<^verbatim>\<open>IsCheckedDay\<close> is true at \<open>d\<close> on the result, and at every other day
  \<open>d'\<close> in \<open>[0, 64)\<close> it answers on the result what it answers on the record.
\<close>

theorem CheckinDay_frame:
  assumes "0 \<le> d" and "d < 64"
  shows "\<exists>r'. CheckinDay r d = Some r'
           \<and> bit r' (nat d) \<and> IsCheckedDay r' d = Some True
           \<and> (\<forall>d'. 0 \<le> d' \<and> d' < 64 \<and> d' \<noteq> d \<longrightarrow> IsCheckedDay r' d' = IsCheckedDay r d')
           \<and> (\<forall>k. k \<noteq> nat d \<longrightarrow> bit r' k = bit r k)"
proof -
  let ?r' = "r OR 2 ^ nat d"
  from assms have n: "nat d < 64" by simp
  have set: "bit ?r' (nat d)"
    using n by (simp add: bit_or_iff bit_exp_iff)
  have others: "bit ?r' k = bit r k" if "k \<noteq> nat d" for k
    using that by (auto simp add: bit_or_iff bit_exp_iff)
  have days: "IsCheckedDay ?r' d' = IsCheckedDay r d'"
    if "0 \<le> d'" "d' < 64" "d' \<noteq> d" for d'
  proof -
    from that assms have "nat d' \<noteq> nat d" by simp
    with that show ?thesis by (simp add: IsCheckedDay_in_range others)
  qed
  from assms set have "IsCheckedDay ?r' d = Some True"
    by (simp add: IsCheckedDay_in_range)
  with assms set others days show ?thesis
    by (simp add: CheckinDay_in_range)
qed

theorem CheckinDay_frame_witness:
  "CheckinDay 5 1 = Some 7 \<and> IsCheckedDay 7 1 = Some True
   \<and> IsCheckedDay 7 3 = IsCheckedDay 5 3 \<and> IsCheckedDay 5 3 = Some False
   \<and> IsCheckedDay 7 2 = IsCheckedDay 5 2 \<and> IsCheckedDay 5 2 = Some True"
proof -
  have h: "(0::int) \<le> 1" "(1::int) < 64" by simp_all
  have c: "CheckinDay 5 1 = Some 7"
    by (simp add: CheckinDay_def shl_def)
  from CheckinDay_frame [OF h, of 5] c
  have "IsCheckedDay 7 1 = Some True"
    and "\<forall>d'. 0 \<le> d' \<and> d' < 64 \<and> d' \<noteq> 1 \<longrightarrow> IsCheckedDay 7 d' = IsCheckedDay 5 d'"
    by auto
  moreover have "IsCheckedDay 5 3 = Some False" "IsCheckedDay 5 2 = Some True"
    by (simp_all add: IsCheckedDay_def shl_def)
  ultimately show ?thesis using c by simp
qed

section \<open>The current streak\<close>

lemma ContinuousDays_loop_step:
  "0 \<le> i \<Longrightarrow> ContinuousDays_loop c i count =
     (if i < 64 then
        (if bit c (nat i) then ContinuousDays_loop c (i + 1) (count + 1) else Some count)
      else Some count)"
  by (subst ContinuousDays_loop.simps) (simp add: shl_nonneg test_mask_pow)

lemma ContinuousDays_loop_run:
  "0 \<le> i \<Longrightarrow> i \<le> 64 \<Longrightarrow>
   \<exists>k. ContinuousDays_loop c i count = Some (count + int k) \<and> nat i + k \<le> 64
       \<and> (\<forall>j. nat i \<le> j \<and> j < nat i + k \<longrightarrow> bit c j)
       \<and> (nat i + k < 64 \<longrightarrow> \<not> bit c (nat i + k))"
proof (induction c i count rule: ContinuousDays_loop.induct)
  case (1 c i count)
  show ?case
  proof (cases "i < 64 \<and> bit c (nat i)")
    case False
    with "1.prems" have "ContinuousDays_loop c i count = Some (count + int 0)"
      by (subst ContinuousDays_loop_step) auto
    moreover from False "1.prems" have "nat i + 0 < 64 \<longrightarrow> \<not> bit c (nat i + 0)"
      by auto
    moreover from "1.prems" have "nat i + 0 \<le> 64" by simp
    ultimately show ?thesis by (intro exI [of _ 0]) auto
  next
    case True
    with "1.prems" have m: "shl 1 i = Some (2 ^ nat i)" "c AND 2 ^ nat i \<noteq> 0"
      by (simp_all add: shl_nonneg test_mask_pow)
    from True "1.prems" have "0 \<le> i + 1" "i + 1 \<le> 64" by simp_all
    from "1.IH" [OF _ m this] True
    obtain k where k: "ContinuousDays_loop c (i + 1) (count + 1) = Some (count + 1 + int k)"
      "nat (i + 1) + k \<le> 64"
      "\<forall>j. nat (i + 1) \<le> j \<and> j < nat (i + 1) + k \<longrightarrow> bit c j"
      "nat (i + 1) + k < 64 \<longrightarrow> \<not> bit c (nat (i + 1) + k)"
      by auto
    from "1.prems" have s: "nat (i + 1) = Suc (nat i)" by simp
    have "ContinuousDays_loop c i count = Some (count + int (Suc k))"
      using True "1.prems" k(1) by (subst ContinuousDays_loop_step) simp_all
    moreover have "nat i + Suc k \<le> 64" using k(2) s by simp
    moreover have "\<forall>j. nat i \<le> j \<and> j < nat i + Suc k \<longrightarrow> bit c j"
    proof (intro allI impI)
      fix j assume j: "nat i \<le> j \<and> j < nat i + Suc k"
      show "bit c j"
      proof (cases "j = nat i")
        case True with \<open>i < 64 \<and> bit c (nat i)\<close> show ?thesis by simp
      next
        case False
        with j s have "nat (i + 1) \<le> j \<and> j < nat (i + 1) + k" by simp
        with k(3) show ?thesis by blast
      qed
    qed
    moreover have "nat i + Suc k < 64 \<longrightarrow> \<not> bit c (nat i + Suc k)"
      using k(4) s by simp
    ultimately show ?thesis by blast
  qed
qed

text \<open>
  C4. \<^verbatim>\<open>ContinuousDays\<close> returns the number \<open>n\<close> of consecutive set bits from index 0:
  \<open>n\<close> is at most 64, the bits below \<open>n\<close> are all set, and bit \<open>n\<close> is clear unless
  \<open>n\<close> is 64. The records \<^verbatim>\<open>0b1011\<close>, \<^verbatim>\<open>0b1111111\<close> and 0 give 2, 7 and 0.
\<close>

theorem ContinuousDays_streak:
  "(\<exists>n. ContinuousDays c = Some (int n) \<and> n \<le> 64
        \<and> (\<forall>j. j < n \<longrightarrow> bit c j) \<and> (n < 64 \<longrightarrow> \<not> bit c n))
   \<and> ContinuousDays 11 = Some 2 \<and> ContinuousDays 127 = Some 7 \<and> ContinuousDays 0 = Some 0"
proof -
  from ContinuousDays_loop_run [of 0 c 0]
  have "\<exists>n. ContinuousDays c = Some (int n) \<and> n \<le> 64
        \<and> (\<forall>j. j < n \<longrightarrow> bit c j) \<and> (n < 64 \<longrightarrow> \<not> bit c n)"
    by (simp add: ContinuousDays_def)
  moreover have "ContinuousDays 11 = Some 2" "ContinuousDays 127 = Some 7"
    "ContinuousDays 0 = Some 0"
    by (simp_all add: ContinuousDays_def ContinuousDays_loop_step)
  ultimately show ?thesis by simp
qed

theorem ContinuousDays_streak_witness:
  "ContinuousDays 9 = Some 1 \<and> (1::nat) \<le> 64 \<and> (0::nat) < 1 \<and> bit (9 :: CheckinRecord) 0
   \<and> (1::nat) < 64 \<and> \<not> bit (9 :: CheckinRecord) 1"
proof -
  have e: "ContinuousDays 9 = Some 1"
    by (simp add: ContinuousDays_def ContinuousDays_loop_step)
  from ContinuousDays_streak [of 9] e
  have "(\<forall>j. j < (1::nat) \<longrightarrow> bit (9 :: CheckinRecord) j)
        \<and> ((1::nat) < 64 \<longrightarrow> \<not> bit (9 :: CheckinRecord) 1)"
    by auto
  with e show ?thesis by simp
qed

section \<open>Totals in a window\<close>

lemma TotalDaysInPeriod_loop_step:
  "0 \<le> i \<Longrightarrow> TotalDaysInPeriod_loop c days i count =
     (if i < days then
        TotalDaysInPeriod_loop c days (i + 1) (if bit c (nat i) then count + 1 else count)
      else Some count)"
  by (subst TotalDaysInPeriod_loop.simps) (simp add: shl_nonneg test_mask_pow)

lemma TotalDaysInPeriod_loop_count:
  "0 \<le> i \<Longrightarrow>
   TotalDaysInPeriod_loop c days i count =
     Some (count + int (length (filter (bit c) [nat i..<nat days])))"
proof (induction c days i count rule: TotalDaysInPeriod_loop.induct)
  case (1 c days i count)
  show ?case
  proof (cases "i < days")
    case False
    with "1.prems" show ?thesis
      by (subst TotalDaysInPeriod_loop_step) simp_all
  next
    case True
    with "1.prems" have m: "shl 1 i = Some (2 ^ nat i)"
      by (simp add: shl_nonneg)
    from "1.prems" have "0 \<le> i + 1" by simp
    from "1.IH" [OF True m this]
    have IH: "TotalDaysInPeriod_loop c days (i + 1) (if bit c (nat i) then count + 1 else count)
      = Some ((if bit c (nat i) then count + 1 else count)
          + int (length (filter (bit c) [nat (i + 1)..<nat days])))"
      by (simp only: test_mask_pow)
    from "1.prems" True have u: "[nat i..<nat days] = nat i # [nat (i + 1)..<nat days]"
      by (simp add: upt_conv_Cons nat_add_distrib)
    show ?thesis
      using "1.prems" True
      by (subst TotalDaysInPeriod_loop_step) (simp_all only: IH u, simp_all)
  qed
qed

lemma count_card: "int (length (filter P [0..<n])) = int (card {j. j < n \<and> P j})"
proof -
  have "{j. j < n \<and> P j} = {j \<in> set [0..<n]. P j}" by auto
  then show ?thesis by (simp add: distinct_length_filter Int_def conj_commute)
qed


lemma window_range: "1 \<le> window days \<and> window days \<le> 64"
  by (auto simp add: window_def)

lemma TotalDaysInPeriod_count:
  "TotalDaysInPeriod c days = Some (int (card {j. j < window days \<and> bit c j}))"
proof -
  have "TotalDaysInPeriod c days
      = Some (int (length (filter (bit c) [0..<window days])))"
    by (simp add: TotalDaysInPeriod_def TotalDaysInPeriod_loop_count window_def)
  then show ?thesis by (simp only: count_card)
qed

lemma card_below: "card {j. j < n \<and> P j} \<le> n"
proof -
  have "card {j. j < n \<and> P j} \<le> card {..<n}"
    by (rule card_mono) auto
  then show ?thesis by simp
qed

text \<open>
  C6. \<^verbatim>\<open>TotalDaysInPeriod\<close> returns the number of set bits among the indices below the
  window length, where a requested length that is not in \<open>[1, 64]\<close> gives the full 64
  bits; it returns normally for every argument, and the result is between 0 and the
  window length. The record \<^verbatim>\<open>0b1010101\<close> gives 4 for 7 days and 2 for 3 days.
\<close>

theorem TotalDaysInPeriod_window:
  "TotalDaysInPeriod c days = Some (int (card {j. j < window days \<and> bit c j}))
   \<and> card {j. j < window days \<and> bit c j} \<le> window days
   \<and> (days \<le> 0 \<or> 64 < days \<longrightarrow> window days = 64)
   \<and> (0 < days \<and> days \<le> 64 \<longrightarrow> int (window days) = days)
   \<and> TotalDaysInPeriod 85 7 = Some 4 \<and> TotalDaysInPeriod 85 3 = Some 2"
proof -
  have "TotalDaysInPeriod 85 7 = Some 4" "TotalDaysInPeriod 85 3 = Some 2"
    by (simp_all add: TotalDaysInPeriod_def TotalDaysInPeriod_loop_step)
  then show ?thesis
    by (simp add: TotalDaysInPeriod_count card_below) (simp add: window_def)
qed

theorem TotalDaysInPeriod_window_witness:
  "((0::int) \<le> 0 \<or> (64::int) < 0) \<and> window 0 = 64
   \<and> TotalDaysInPeriod 85 0 = Some (int (card {j. j < window 0 \<and> bit (85 :: CheckinRecord) j}))
   \<and> TotalDaysInPeriod 85 0 = Some 4
   \<and> ((70::int) \<le> 0 \<or> (64::int) < 70) \<and> window 70 = 64
   \<and> TotalDaysInPeriod 85 70 = Some 4
   \<and> (0::int) < 3 \<and> (3::int) \<le> 64 \<and> int (window 3) = 3"
proof -
  have e: "TotalDaysInPeriod 85 0 = Some 4" "TotalDaysInPeriod 85 70 = Some 4"
    by (simp_all add: TotalDaysInPeriod_def TotalDaysInPeriod_loop_step)
  have h: "(0::int) \<le> 0 \<or> (64::int) < 0" "(70::int) \<le> 0 \<or> (64::int) < 70"
    "(0::int) < 3 \<and> (3::int) \<le> 64"
    by simp_all
  from TotalDaysInPeriod_window [of 85 0] h(1)
  have a: "TotalDaysInPeriod 85 0 = Some (int (card {j. j < window 0 \<and> bit (85 :: CheckinRecord) j}))"
    "window 0 = 64"
    by blast+
  from TotalDaysInPeriod_window [of 85 70] h(2) have b: "window 70 = 64"
    by blast
  from TotalDaysInPeriod_window [of 85 3] h(3) have c: "int (window 3) = 3"
    by blast
  from a b c e h show ?thesis by blast
qed

section \<open>The longest streak\<close>

lemma MaxContinuousDays_loop_step:
  "0 \<le> i \<Longrightarrow> MaxContinuousDays_loop c i maxCount currentCount =
     (if i < 64 then
        (if bit c (nat i) then
           MaxContinuousDays_loop c (i + 1)
             (if currentCount + 1 > maxCount then currentCount + 1 else maxCount)
             (currentCount + 1)
         else MaxContinuousDays_loop c (i + 1) maxCount 0)
      else Some maxCount)"
  by (subst MaxContinuousDays_loop.simps) (simp add: shl_nonneg test_mask_pow Let_def)

lemma run_ending_bound:
  assumes inv: "run_inv c i mx cur" and r: "is_run c a len" and e: "a + len = i"
  shows "len \<le> cur"
proof (rule ccontr)
  assume "\<not> len \<le> cur"
  with e have lt: "cur < i" and a: "a \<le> i - cur - 1" "i - cur - 1 < a + len" by simp_all
  from r a have "bit c (i - cur - 1)" by (simp add: is_run_def)
  with inv lt show False by (simp add: run_inv_def)
qed

lemma run_inv_start: "run_inv c 0 0 0"
  by (simp add: run_inv_def is_run_def longest_run_def)

lemma run_inv_clear:
  assumes inv: "run_inv c i mx cur" and b: "\<not> bit c i"
  shows "run_inv c (Suc i) mx 0"
proof -
  from inv obtain a0 where a0: "a0 + mx \<le> i" "is_run c a0 mx"
    by (auto simp add: run_inv_def longest_run_def)
  have up: "len \<le> mx" if "a + len \<le> Suc i" "is_run c a len" for a len
  proof (cases "a + len \<le> i")
    case True
    with inv that show ?thesis by (auto simp add: run_inv_def longest_run_def)
  next
    case False
    with that have "a + len = Suc i" by simp
    show ?thesis
    proof (cases "len = 0")
      case False
      with \<open>a + len = Suc i\<close> have "a \<le> i" "i < a + len" by simp_all
      with that(2) have "bit c i" by (simp add: is_run_def)
      with b show ?thesis by simp
    qed simp
  qed
  from up have "\<forall>a len. a + len \<le> Suc i \<and> is_run c a len \<longrightarrow> len \<le> mx" by blast
  moreover from a0 have "\<exists>a. a + mx \<le> Suc i \<and> is_run c a mx"
    by (intro exI [of _ a0]) simp
  moreover have "is_run c (Suc i - 0) 0" by (simp add: is_run_def)
  ultimately show ?thesis using b
    by (simp add: run_inv_def longest_run_def)
qed

lemma run_inv_set:
  assumes inv: "run_inv c i mx cur" and b: "bit c i"
  shows "run_inv c (Suc i) (if Suc cur > mx then Suc cur else mx) (Suc cur)"
proof -
  let ?mx = "if Suc cur > mx then Suc cur else mx"
  from inv have cur: "cur \<le> i" "is_run c (i - cur) cur" "cur < i \<longrightarrow> \<not> bit c (i - cur - 1)"
    by (simp_all add: run_inv_def)
  from inv obtain a0 where a0: "a0 + mx \<le> i" "is_run c a0 mx"
    by (auto simp add: run_inv_def longest_run_def)
  have new: "is_run c (Suc i - Suc cur) (Suc cur)"
    unfolding is_run_def
  proof
    fix j assume "j \<in> {Suc i - Suc cur..<Suc i - Suc cur + Suc cur}"
    with cur(1) have j: "i - cur \<le> j" "j < Suc i" by simp_all
    show "bit c j"
    proof (cases "j = i")
      case True with b show ?thesis by simp
    next
      case False
      with j cur(1) have "j \<in> {i - cur..<i - cur + cur}" by simp
      with cur(2) show ?thesis by (simp add: is_run_def)
    qed
  qed
  have ex: "\<exists>a. a + ?mx \<le> Suc i \<and> is_run c a ?mx"
  proof (cases "Suc cur > mx")
    case True
    with new cur(1) show ?thesis by (intro exI [of _ "Suc i - Suc cur"]) simp
  next
    case False
    with a0 show ?thesis by (intro exI [of _ a0]) simp
  qed
  have up: "len \<le> ?mx" if "a + len \<le> Suc i" "is_run c a len" for a len
  proof (cases "a + len \<le> i")
    case True
    with inv that have "len \<le> mx" by (auto simp add: run_inv_def longest_run_def)
    then show ?thesis by simp
  next
    case False
    with that have e: "a + len = Suc i" by simp
    show ?thesis
    proof (cases len)
      case 0 then show ?thesis by simp
    next
      case (Suc l)
      from that(2) Suc have "is_run c a l" by (simp add: is_run_def)
      moreover from e Suc have "a + l = i" by simp
      ultimately have "l \<le> cur" using inv by (rule run_ending_bound [rotated])
      with Suc show ?thesis by simp
    qed
  qed
  from up have "\<forall>a len. a + len \<le> Suc i \<and> is_run c a len \<longrightarrow> len \<le> ?mx" by blast
  moreover have "Suc cur < Suc i \<longrightarrow> \<not> bit c (Suc i - Suc cur - 1)"
    using cur(3) by simp
  ultimately show ?thesis using new ex cur(1)
    unfolding run_inv_def longest_run_def by blast
qed

lemma MaxContinuousDays_loop_longest:
  "i \<le> 64 \<Longrightarrow> run_inv c i mx cur \<Longrightarrow>
   \<exists>m. MaxContinuousDays_loop c (int i) (int mx) (int cur) = Some (int m) \<and> longest_run c 64 m"
proof (induction k \<equiv> "64 - i" arbitrary: i mx cur)
  case 0
  then have "i = 64" by simp
  with "0.prems" have "MaxContinuousDays_loop c (int i) (int mx) (int cur) = Some (int mx)"
    by (subst MaxContinuousDays_loop_step) simp_all
  moreover from "0.prems" \<open>i = 64\<close> have "longest_run c 64 mx" by (simp add: run_inv_def)
  ultimately show ?case by blast
next
  case (Suc k)
  then have lt: "i < 64" and k: "k = 64 - Suc i" and le: "Suc i \<le> 64" by simp_all
  show ?case
  proof (cases "bit c i")
    case True
    from Suc.prems(2) True
    have "run_inv c (Suc i) (if Suc cur > mx then Suc cur else mx) (Suc cur)"
      by (rule run_inv_set)
    from Suc.hyps(1) [OF k le this] obtain m where
      m: "MaxContinuousDays_loop c (int (Suc i)) (int (if Suc cur > mx then Suc cur else mx))
            (int (Suc cur)) = Some (int m)" "longest_run c 64 m"
      by blast
    have "MaxContinuousDays_loop c (int i) (int mx) (int cur) = Some (int m)"
      using lt True m(1)
      by (subst MaxContinuousDays_loop_step) (auto simp add: add.commute split: if_splits)
    with m(2) show ?thesis by blast
  next
    case False
    from Suc.prems(2) False have "run_inv c (Suc i) mx 0" by (rule run_inv_clear)
    from Suc.hyps(1) [OF k le this] obtain m where
      m: "MaxContinuousDays_loop c (int (Suc i)) (int mx) (int 0) = Some (int m)"
        "longest_run c 64 m"
      by blast
    have "MaxContinuousDays_loop c (int i) (int mx) (int cur) = Some (int m)"
      using lt False m(1)
      by (subst MaxContinuousDays_loop_step) (auto simp add: add.commute)
    with m(2) show ?thesis by blast
  qed
qed

lemma longest_run_unique: "longest_run c n m \<Longrightarrow> longest_run c n m' \<Longrightarrow> m = m'"
  unfolding longest_run_def by (meson le_antisym)

lemma longest_run_empty: "longest_run 0 n 0"
proof -
  have "len = 0" if "is_run 0 a len" for a len
  proof (rule ccontr)
    assume "len \<noteq> 0"
    then have "a \<in> {a..<a + len}" by simp
    with that have "bit (0 :: CheckinRecord) a" unfolding is_run_def by blast
    then show False by simp
  qed
  moreover have "is_run 0 0 0" by (simp add: is_run_def)
  ultimately show ?thesis unfolding longest_run_def by auto
qed

lemma MaxContinuousDays_longest:
  "\<exists>m. MaxContinuousDays c = Some (int m) \<and> longest_run c 64 m"
proof (cases "c = 0")
  case True
  then show ?thesis using longest_run_empty [of 64]
    by (auto simp add: MaxContinuousDays_def intro: exI [of _ 0])
next
  case False
  with MaxContinuousDays_loop_longest [OF _ run_inv_start, of c]
  show ?thesis by (simp add: MaxContinuousDays_def)
qed

text \<open>
  C5. \<^verbatim>\<open>MaxContinuousDays\<close> returns the length of a longest run of set bits among the
  64 indices, wherever the run starts: a run of that length exists and no run is longer
  (so the result is the only number with that property).
  For the empty record the result is 0. The records \<^verbatim>\<open>0b1110011\<close>, \<^verbatim>\<open>0b11110110\<close> and 0
  give 3, 4 and 0.
\<close>

theorem MaxContinuousDays_longest_run:
  "(\<exists>m. MaxContinuousDays c = Some (int m) \<and> longest_run c 64 m)
   \<and> (\<forall>m'. longest_run c 64 m' \<longrightarrow> MaxContinuousDays c = Some (int m'))
   \<and> (c = 0 \<longrightarrow> MaxContinuousDays c = Some 0)
   \<and> MaxContinuousDays 115 = Some 3 \<and> MaxContinuousDays 246 = Some 4
   \<and> MaxContinuousDays 0 = Some 0"
proof -
  have "MaxContinuousDays 115 = Some 3" "MaxContinuousDays 246 = Some 4"
    "MaxContinuousDays 0 = Some 0"
    by (simp_all add: MaxContinuousDays_def MaxContinuousDays_loop_step)
  moreover have "c = 0 \<longrightarrow> MaxContinuousDays c = Some 0"
    by (simp add: MaxContinuousDays_def)
  moreover have "\<forall>m'. longest_run c 64 m' \<longrightarrow> MaxContinuousDays c = Some (int m')"
    using MaxContinuousDays_longest [of c] longest_run_unique [of c 64] by blast
  ultimately show ?thesis using MaxContinuousDays_longest [of c] by simp
qed

theorem MaxContinuousDays_longest_run_witness:
  "MaxContinuousDays 115 = Some 3 \<and> longest_run 115 64 3
   \<and> 4 + 3 \<le> (64::nat) \<and> is_run 115 4 3
   \<and> 0 + 2 \<le> (64::nat) \<and> is_run 115 0 2 \<and> (2::nat) \<le> 3"
proof -
  have e: "MaxContinuousDays 115 = Some 3"
    by (simp add: MaxContinuousDays_def MaxContinuousDays_loop_step)
  with MaxContinuousDays_longest_run [of 115] have l: "longest_run 115 64 3"
    by auto
  have r: "is_run 115 0 2"
    unfolding is_run_def
  proof
    fix j :: nat assume "j \<in> {0..<0 + 2}"
    then have "j = 0 \<or> j = 1" by auto
    then show "bit (115 :: CheckinRecord) j" by auto
  qed
  have "is_run 115 4 3"
    unfolding is_run_def
  proof
    fix j :: nat assume "j \<in> {4..<4 + 3}"
    then have "j = 4 \<or> j = 5 \<or> j = 6" by auto
    then show "bit (115 :: CheckinRecord) j" by auto
  qed
  with e l r show ?thesis by simp
qed

section \<open>Rendering the last days\<close>

lemma StringWithDays_loop_glyphs:
  "0 \<le> i \<Longrightarrow>
   StringWithDays_loop c days i result =
     Some (result @ concat (map (\<lambda>j. glyph (bit c j)) [nat i..<nat days]))"
proof (induction c days i result rule: StringWithDays_loop.induct)
  case (1 c days i result)
  show ?case
  proof (cases "i < days")
    case False
    with "1.prems" show ?thesis
      by (subst StringWithDays_loop.simps) simp
  next
    case True
    with "1.prems" have m: "shl 1 i = Some (2 ^ nat i)"
      by (simp add: shl_nonneg)
    from "1.prems" have "0 \<le> i + 1" by simp
    from "1.IH" [OF True m this]
    have IH: "StringWithDays_loop c days (i + 1) (result @ glyph (bit c (nat i)))
      = Some ((result @ glyph (bit c (nat i)))
           @ concat (map (\<lambda>j. glyph (bit c j)) [nat (i + 1)..<nat days]))"
      by (cases "bit c (nat i)") (simp_all add: test_mask_pow glyph_def)
    from "1.prems" True have u: "[nat i..<nat days] = nat i # [nat (i + 1)..<nat days]"
      by (simp add: upt_conv_Cons nat_add_distrib)
    have "StringWithDays_loop c days i result
        = StringWithDays_loop c days (i + 1) (result @ glyph (bit c (nat i)))"
      using True m by (subst StringWithDays_loop.simps) (simp add: test_mask_pow glyph_def)
    with IH u show ?thesis by simp
  qed
qed

lemma runes_of_glyph: "runes_of (glyph b @ s) = glyph_rune b # runes_of s"
  by (simp add: glyph_def glyph_rune_def check_mark_def cross_mark_def first_byte_def)

lemma runes_of_glyphs: "runes_of (concat (map glyph bs)) = map glyph_rune bs"
  by (induction bs) (simp_all add: runes_of_glyph)

lemma EncodeRune_glyph: "EncodeRune (glyph_rune b) = glyph b"
  by (auto simp add: glyph_def glyph_rune_def check_mark_def cross_mark_def EncodeRune_def
      intro!: of_char_eqI [where 'a = nat])

lemma string_of_runes_glyphs:
  "string_of_runes (map (\<lambda>x. glyph_rune (f x)) xs) = concat (map (\<lambda>x. glyph (f x)) xs)"
  by (simp add: string_of_runes_def comp_def EncodeRune_glyph)

lemma reverse_loop_nth:
  "0 \<le> i \<Longrightarrow> i + j = int (length xs) - 1 \<Longrightarrow>
   \<exists>ys. reverse_loop xs i j = Some ys \<and> length ys = length xs
      \<and> (\<forall>k < length xs. ys ! k =
            (if nat i \<le> k \<and> int k \<le> j then xs ! (length xs - 1 - k) else xs ! k))"
proof (induction xs i j rule: reverse_loop.induct)
  case (1 runes i j)
  show ?case
  proof (cases "i < j")
    case False
    with "1.prems" have "reverse_loop runes i j = Some runes"
      by (subst reverse_loop.simps) simp
    moreover have "\<forall>k < length runes. runes ! k =
        (if nat i \<le> k \<and> int k \<le> j then runes ! (length runes - 1 - k) else runes ! k)"
    proof (intro allI impI)
      fix k assume "k < length runes"
      show "runes ! k = (if nat i \<le> k \<and> int k \<le> j then runes ! (length runes - 1 - k) else runes ! k)"
      proof (cases "nat i \<le> k \<and> int k \<le> j")
        case True
        with False "1.prems" have "length runes - 1 - k = k" by linarith
        then show ?thesis by simp
      qed auto
    qed
    ultimately show ?thesis by blast
  next
    case True
    let ?xs = "runes[nat i := runes ! nat j, nat j := runes ! nat i]"
    from True "1.prems" have rng: "\<not> (i < 0 \<or> j < 0 \<or> int (length runes) \<le> i \<or> int (length runes) \<le> j)"
      by linarith
    from "1.prems" have p: "0 \<le> i + 1" "i + 1 + (j - 1) = int (length ?xs) - 1" by simp_all
    from "1.IH" [OF True rng p] obtain ys where ys:
      "reverse_loop ?xs (i + 1) (j - 1) = Some ys" "length ys = length runes"
      "\<forall>k < length runes. ys ! k =
          (if nat (i + 1) \<le> k \<and> int k \<le> j - 1 then ?xs ! (length runes - 1 - k) else ?xs ! k)"
      by auto
    have "reverse_loop runes i j = Some ys"
      using True rng ys(1) by (subst reverse_loop.simps) simp
    moreover have "\<forall>k < length runes. ys ! k =
        (if nat i \<le> k \<and> int k \<le> j then runes ! (length runes - 1 - k) else runes ! k)"
    proof (intro allI impI)
      fix k assume k: "k < length runes"
      from rng True have ij: "nat i < length runes" "nat j < length runes" "nat i \<noteq> nat j"
        by linarith+
      from "1.prems" rng have e: "length runes - 1 - nat i = nat j" "length runes - 1 - nat j = nat i"
        by linarith+
      from ys(3) k have yk: "ys ! k =
          (if nat (i + 1) \<le> k \<and> int k \<le> j - 1 then ?xs ! (length runes - 1 - k) else ?xs ! k)"
        by blast
      consider "k = nat i" | "k = nat j" | "nat i < k \<and> k < nat j" | "k < nat i \<or> nat j < k"
        using ij by linarith
      then show "ys ! k = (if nat i \<le> k \<and> int k \<le> j then runes ! (length runes - 1 - k) else runes ! k)"
      proof cases
        case 1
        with rng True have c: "\<not> (nat (i + 1) \<le> k \<and> int k \<le> j - 1)" "nat i \<le> k \<and> int k \<le> j"
          by auto
        from yk have "ys ! k = ?xs ! k" by (simp only: if_not_P [OF c(1)])
        also have "?xs ! k = runes ! nat j" using 1 ij by (simp add: nth_list_update)
        also have "runes ! nat j = runes ! (length runes - 1 - k)" using e(1) 1 by simp
        finally show ?thesis by (simp only: if_P [OF c(2)])
      next
        case 2
        with rng True have c: "\<not> (nat (i + 1) \<le> k \<and> int k \<le> j - 1)" "nat i \<le> k \<and> int k \<le> j"
          by auto
        from yk have "ys ! k = ?xs ! k" by (simp only: if_not_P [OF c(1)])
        also have "?xs ! k = runes ! nat i" using 2 ij by (simp add: nth_list_update)
        also have "runes ! nat i = runes ! (length runes - 1 - k)" using e(2) 2 by simp
        finally show ?thesis by (simp only: if_P [OF c(2)])
      next
        case 3
        with rng True have c: "nat (i + 1) \<le> k \<and> int k \<le> j - 1" "nat i \<le> k \<and> int k \<le> j"
          by auto
        from 3 "1.prems" rng
        have m: "length runes - 1 - k \<noteq> nat i" "length runes - 1 - k \<noteq> nat j"
          by linarith+
        from yk have "ys ! k = ?xs ! (length runes - 1 - k)" by (simp only: if_P [OF c(1)])
        also have "\<dots> = runes ! (length runes - 1 - k)" using m by (simp add: nth_list_update)
        finally show ?thesis by (simp only: if_P [OF c(2)])
      next
        case 4
        with rng True have c: "\<not> (nat (i + 1) \<le> k \<and> int k \<le> j - 1)" "\<not> (nat i \<le> k \<and> int k \<le> j)"
          by auto
        from 4 True rng have m: "k \<noteq> nat i" "k \<noteq> nat j" by auto
        from yk have "ys ! k = ?xs ! k" by (simp only: if_not_P [OF c(1)])
        also have "?xs ! k = runes ! k" using m by (simp add: nth_list_update)
        finally show ?thesis by (simp only: if_not_P [OF c(2)])
      qed
    qed
    ultimately show ?thesis using ys(2) by blast
  qed
qed

lemma reverse_loop_rev: "reverse_loop xs 0 (int (length xs) - 1) = Some (rev xs)"
proof -
  from reverse_loop_nth [of 0 "int (length xs) - 1" xs] obtain ys where ys:
    "reverse_loop xs 0 (int (length xs) - 1) = Some ys" "length ys = length xs"
    "\<forall>k < length xs. ys ! k =
       (if nat 0 \<le> k \<and> int k \<le> int (length xs) - 1 then xs ! (length xs - 1 - k) else xs ! k)"
    by auto
  have "ys = rev xs"
  proof (rule nth_equalityI)
    show "length ys = length (rev xs)" using ys(2) by simp
  next
    fix k assume "k < length ys"
    with ys(2,3) show "ys ! k = rev xs ! k" by (simp add: rev_nth)
  qed
  with ys(1) show ?thesis by simp
qed

lemma StringWithDays_glyphs:
  "StringWithDays c days = Some (concat (map (\<lambda>j. glyph (bit c j)) (rev [0..<window days])))"
proof -
  let ?n = "if days \<le> 0 \<or> days > 64 then 64 else days"
  have n: "nat ?n = window days" by (simp add: window_def)
  have l: "StringWithDays_loop c ?n 0 [] = Some (concat (map glyph (map (bit c) [0..<window days])))"
    by (simp only: StringWithDays_loop_glyphs [of 0] n) (simp add: comp_def)
  have "StringWithDays c days
      = Some (string_of_runes (rev (map glyph_rune (map (bit c) [0..<window days]))))"
    unfolding StringWithDays_def Let_def l
    by (simp only: runes_of_glyphs reverse_loop_rev bind.bind_lunit)
  also have "rev (map glyph_rune (map (bit c) [0..<window days]))
      = map glyph_rune (map (bit c) (rev [0..<window days]))"
    by (simp add: rev_map)
  finally show ?thesis by (simp add: string_of_runes_glyphs comp_def)
qed

text \<open>
  C8. \<^verbatim>\<open>StringWithDays\<close> returns, for every record and every length, the glyphs of the
  days \<open>window days - 1\<close> down to 0 from left to right, one glyph per day, so exactly
  \<open>window days\<close> glyphs, where the window is the requested length if that is in
  \<open>[1, 64]\<close> and 64 otherwise; a set bit gives the check mark and a clear bit the cross.
  \<^verbatim>\<open>String\<close> is \<^verbatim>\<open>StringWithDays\<close> at 7.
\<close>

theorem StringWithDays_render:
  "(\<exists>s. StringWithDays c days = Some s
        \<and> s = concat (map (\<lambda>j. glyph (bit c j)) (rev [0..<window days]))
        \<and> length (runes_of s) = window days
        \<and> (\<forall>k. k < window days \<longrightarrow> runes_of s ! k = glyph_rune (bit c (window days - 1 - k))))
   \<and> 1 \<le> window days \<and> window days \<le> 64
   \<and> (days \<le> 0 \<or> 64 < days \<longrightarrow> window days = 64)
   \<and> (0 < days \<and> days \<le> 64 \<longrightarrow> int (window days) = days)
   \<and> glyph True = check_mark \<and> glyph False = cross_mark \<and> check_mark \<noteq> cross_mark
   \<and> String c = StringWithDays c 7"
proof -
  let ?s = "concat (map (\<lambda>j. glyph (bit c j)) (rev [0..<window days]))"
  have r: "runes_of ?s = map (\<lambda>j. glyph_rune (bit c j)) (rev [0..<window days])"
    using runes_of_glyphs [of "map (bit c) (rev [0..<window days])"]
    by (simp add: comp_def)
  have n: "\<forall>k. k < window days \<longrightarrow> runes_of ?s ! k = glyph_rune (bit c (window days - 1 - k))"
    unfolding r by (simp add: rev_nth)
  have w: "(days \<le> 0 \<or> 64 < days \<longrightarrow> window days = 64)
      \<and> (0 < days \<and> days \<le> 64 \<longrightarrow> int (window days) = days)"
    by (simp add: window_def)
  have g: "glyph True = check_mark \<and> glyph False = cross_mark \<and> check_mark \<noteq> cross_mark"
    by (simp add: glyph_def check_mark_def cross_mark_def)
  from r have l: "length (runes_of ?s) = window days" by simp
  from StringWithDays_glyphs [of c days] l n w g window_range [of days]
  show ?thesis unfolding String_def by blast
qed

theorem StringWithDays_render_witness:
  "StringWithDays 5 3 = Some (check_mark @ cross_mark @ check_mark)
   \<and> (0::int) < 3 \<and> (3::int) \<le> 64 \<and> int (window 3) = 3
   \<and> ((0::int) \<le> 0 \<or> (64::int) < 0) \<and> window 0 = 64
   \<and> (0::nat) < window 3
   \<and> runes_of (check_mark @ cross_mark @ check_mark) ! 0 = glyph_rune (bit (5 :: CheckinRecord) 2)"
proof -
  have h: "(0::int) < 3 \<and> (3::int) \<le> 64" "(0::int) \<le> 0 \<or> (64::int) < 0"
    by simp_all
  have w3: "window 3 = 3" by (simp add: window_def)
  have e: "concat (map (\<lambda>j. glyph (bit (5 :: CheckinRecord) j)) (rev [0..<window 3]))
      = check_mark @ cross_mark @ check_mark"
    by (simp add: w3 glyph_def upt_rec)
  from StringWithDays_render [of 5 3] obtain s where s:
    "StringWithDays 5 3 = Some s"
    "s = concat (map (\<lambda>j. glyph (bit (5 :: CheckinRecord) j)) (rev [0..<window 3]))"
    "\<forall>k. k < window 3 \<longrightarrow> runes_of s ! k = glyph_rune (bit (5 :: CheckinRecord) (window 3 - 1 - k))"
    by blast
  from s(2) e have s': "s = check_mark @ cross_mark @ check_mark" by simp
  from w3 have p: "(0::nat) < window 3" by simp
  with s(3) have "runes_of s ! 0 = glyph_rune (bit (5 :: CheckinRecord) (window 3 - 1 - 0))"
    by blast
  with w3 have n: "runes_of s ! 0 = glyph_rune (bit (5 :: CheckinRecord) 2)" by simp
  from StringWithDays_render [of 5 3] h(1) have a: "int (window 3) = 3" by blast
  from StringWithDays_render [of 5 0] h(2) have b: "window 0 = 64" by blast
  from s(1) s' n a b h p show ?thesis by simp
qed

section \<open>The binary debug string\<close>

lemma bits_shift:
  "map (bit (drop_bit 1 u)) (rev [0..<64]) = False # map (bit u) (rev [1..<64])"
  for u :: CheckinRecord
proof -
  have "[0..<64] = [0..<63] @ [63::nat]" by (simp add: upt_rec)
  then have "map (bit (drop_bit 1 u)) (rev [0..<64])
      = bit (drop_bit 1 u) 63 # map (bit (drop_bit 1 u)) (rev [0..<63])"
    by (simp only: rev_append rev.simps append.simps list.map)
  moreover have "\<not> bit (drop_bit 1 u) 63"
    by (auto simp add: bit_drop_bit_eq dest: bit_imp_le_length)
  moreover have "map (bit (drop_bit 1 u)) (rev [0..<63]) = map (bit u) (rev (map Suc [0..<63]))"
    by (simp add: rev_map bit_drop_bit_eq comp_def)
  moreover have "map Suc [0..<63] = [1..<64]"
    by (simp only: map_Suc_upt) simp
  ultimately show ?thesis by simp
qed

lemma bits_split:
  "map (bit u) (rev [0..<64]) = map (bit u) (rev [1..<64]) @ [bit u 0]"
  for u :: CheckinRecord
proof -
  have "[0..<64] = 0 # [1..<64]" by (simp add: upt_conv_Cons)
  then show ?thesis by (simp only: rev.simps map_append list.map)
qed

lemma high_bit_exists:
  fixes u :: CheckinRecord
  assumes "2 \<le> u"
  shows "True \<in> set (map (bit u) (rev [1..<64]))"
proof (rule ccontr)
  assume "\<not> ?thesis"
  then have n: "\<not> bit u j" if "1 \<le> j" "j < 64" for j
    using that by (auto simp add: image_iff)
  have "u = of_bool (bit u 0)"
  proof (rule bit_word_eqI)
    fix j assume "j < LENGTH(64)"
    then show "bit u j = bit (of_bool (bit u 0) :: CheckinRecord) j"
      using n [of j] by (cases "j = 0") (auto simp add: bit_of_bool_iff)
  qed
  then have "u = 0 \<or> u = 1" by (cases "bit u 0") simp_all
  with assms show False by (auto simp add: word_le_nat_alt)
qed

lemma digit_low: "char_of (48 + unat (u AND 1)) = (if bit u 0 then CHR ''1'' else CHR ''0'')"
  for u :: CheckinRecord
proof -
  have "u AND 1 = of_bool (bit u 0)"
    by (simp add: and_one_eq bit_0 mod_2_eq_odd)
  then show ?thesis
    by (auto intro!: of_char_eqI [where 'a = nat])
qed

lemma bit_pattern_step:
  assumes "2 \<le> u"
  shows "bit_pattern u = bit_pattern (drop_bit 1 u) @ [char_of (48 + unat (u AND 1))]"
proof -
  let ?d = "\<lambda>b. if b then CHR ''1'' else CHR ''0''"
  let ?xs = "map (bit u) (rev [1..<64])"
  from assms have u0: "u \<noteq> 0" by auto
  from high_bit_exists [OF assms] have t: "True \<in> set ?xs" .
  then obtain j where j: "1 \<le> j" "bit u j" by auto
  then have "bit (drop_bit 1 u) (j - 1)" by (simp add: bit_drop_bit_eq)
  then have s0: "drop_bit 1 u \<noteq> 0" by auto
  have "dropWhile Not (?xs @ [bit u 0]) = dropWhile Not ?xs @ [bit u 0]"
    using t by (rule dropWhile_append1) simp
  with u0 have a: "bit_pattern u = map ?d (dropWhile Not ?xs) @ [?d (bit u 0)]"
    by (simp add: bit_pattern_def bits_split)
  from s0 have "bit_pattern (drop_bit 1 u) = map ?d (dropWhile Not (False # ?xs))"
    by (simp only: bit_pattern_def bits_shift if_False)
  then have b: "bit_pattern (drop_bit 1 u) = map ?d (dropWhile Not ?xs)"
    by simp
  from a b show ?thesis by (simp only: digit_low)
qed

lemma bit_pattern_0: "bit_pattern 0 = ''0''"
  by (simp add: bit_pattern_def)

lemma bit_pattern_1: "bit_pattern 1 = ''1''"
proof -
  have "map (bit (1 :: CheckinRecord)) (rev [1..<64]) = replicate 63 False"
    by (rule nth_equalityI) (simp_all add: bit_1_iff rev_nth)
  then have "map (bit (1 :: CheckinRecord)) (rev [0..<64]) = replicate 63 False @ [True]"
    by (simp only: bits_split) simp
  moreover have "dropWhile Not (replicate 63 False @ [True]) = [True]"
    by (simp add: dropWhile_append)
  ultimately show ?thesis by (simp add: bit_pattern_def)
qed

lemma fmt_bits_pattern: "fmt_bits u = bit_pattern u"
proof (induction u rule: fmt_bits.induct)
  case (1 u)
  show ?case
  proof (cases "2 \<le> u")
    case True
    from "1.IH" [OF True] True show ?thesis
      by (subst fmt_bits.simps) (simp add: bit_pattern_step)
  next
    case False
    then have "unat u < 2" by (simp add: word_le_nat_alt)
    then have "unat u = unat (0 :: CheckinRecord) \<or> unat u = unat (1 :: CheckinRecord)"
      by auto
    then have "u = 0 \<or> u = 1" by (simp only: word_unat_eq_iff)
    moreover from False have "fmt_bits u = [char_of (48 + unat u)]"
      by (subst fmt_bits.simps) simp
    ultimately show ?thesis
      by (auto simp add: bit_pattern_0 bit_pattern_1 intro!: of_char_eqI [where 'a = nat])
  qed
qed

lemma negative_iff_bit63: "sint c < 0 \<longleftrightarrow> bit c 63" for c :: CheckinRecord
  using bit_last_iff [of c] by simp

lemma Binary_nonneg: "\<not> bit c 63 \<Longrightarrow> Binary c = ''0b'' @ bit_pattern c"
  by (simp add: Binary_def fmtInteger_b_def negative_iff_bit63 fmt_bits_pattern)

lemma Binary_neg: "bit c 63 \<Longrightarrow> Binary c = ''0b-'' @ bit_pattern (- c)"
  by (simp add: Binary_def fmtInteger_b_def negative_iff_bit63 fmt_bits_pattern)

text \<open>
  C1. \<^verbatim>\<open>Binary\<close> is meant to show the raw bit pattern of every record after the prefix
  \<^verbatim>\<open>0b\<close>, most significant bit first and without leading zeros, also when bit 63 is
  set. It does so exactly for the records with bit 63 clear (\<open>Binary_nonneg\<close>); with
  bit 63 set it prints a minus sign and the digits of the negated value
  (\<open>Binary_neg\<close>). For the record with all 64 days marked it returns \<^verbatim>\<open>0b-1\<close>, which is
  not the prefix followed by its 64 set bits.
\<close>

theorem Binary_all_marked:
  "Binary (- 1) = ''0b-1'' \<and> bit (- 1 :: CheckinRecord) 63
   \<and> Binary (- 1) \<noteq> ''0b'' @ bit_pattern (- 1)
   \<and> bit_pattern (- 1) = ''1111111111111111111111111111111111111111111111111111111111111111''"
proof -
  have a: "Binary (- 1) = ''0b-1''"
    by (simp add: Binary_neg bit_pattern_1)
  have b: "bit_pattern (- 1) = ''1111111111111111111111111111111111111111111111111111111111111111''"
    by (simp add: bit_pattern_def upt_rec)
  show ?thesis unfolding a b by simp
qed

section \<open>Rounding to a double\<close>

lemma ilog2_bounds:
  assumes "0 < x"
  shows "2 powi (ilog2 x) \<le> x \<and> x < 2 powi (ilog2 x + 1)"
proof (cases "1 \<le> x")
  case True
  let ?n = "nat \<lfloor>x\<rfloor>"
  from True have n: "0 < ?n" by simp
  let ?k = "floorlog 2 ?n"
  from floorlog_bounds [OF n, of 2] have b: "2 ^ (?k - 1) \<le> ?n" "?n < 2 ^ ?k" by simp_all
  from n have k: "0 < ?k" by (simp add: floorlog_def)
  have e: "ilog2 x = int ?k - 1" using True by (simp add: ilog2_def)
  from k have e1: "ilog2 x = int (?k - 1)" "ilog2 x + 1 = int ?k" unfolding e by simp_all
  have "(2::rat) ^ (?k - 1) = of_nat (2 ^ (?k - 1))" by simp
  also have "\<dots> \<le> of_nat ?n" using b(1) by (simp only: of_nat_le_iff)
  also have "\<dots> = of_int \<lfloor>x\<rfloor>" using True by simp
  also have "\<dots> \<le> x" by simp
  finally have lo: "(2::rat) ^ (?k - 1) \<le> x" .
  from b(2) have "Suc ?n \<le> 2 ^ ?k" by (rule Suc_leI)
  then have "(of_nat (Suc ?n) :: rat) \<le> of_nat (2 ^ ?k)" by (simp only: of_nat_le_iff)
  moreover have "x < of_nat (Suc ?n)"
  proof -
    have "x < of_int (\<lfloor>x\<rfloor> + 1)" by linarith
    also have "of_int (\<lfloor>x\<rfloor> + 1) = (of_nat (Suc ?n) :: rat)" using True by simp
    finally show ?thesis .
  qed
  ultimately have hi: "x < 2 ^ ?k" by simp
  have "(2::rat) powi (ilog2 x) = 2 ^ (?k - 1)"
    by (simp only: e1(1) power_int_of_nat)
  moreover have "(2::rat) powi (ilog2 x + 1) = 2 ^ ?k"
    by (simp only: e1(2) power_int_of_nat)
  ultimately show ?thesis using lo hi by simp
next
  case False
  with assms have x: "0 < x" "x < 1" by simp_all
  define y where "y = 1 / x"
  define N where "N = \<lceil>y\<rceil>"
  define n where "n = nat (N - 1)"
  define k where "k = floorlog 2 n"
  from x have y: "1 < y" by (simp add: y_def)
  then have N: "2 \<le> N" unfolding N_def by linarith
  then have n: "0 < n" and nN: "int n = N - 1" by (simp_all add: n_def)
  from floorlog_bounds [OF n, of 2] have b: "2 ^ (k - 1) \<le> n" "n < 2 ^ k"
    by (simp_all add: k_def)
  from n have k: "0 < k" by (simp add: k_def floorlog_def)
  have e: "ilog2 x = - int k"
    unfolding ilog2_def k_def n_def N_def y_def using False by (simp only: if_False)
  from b(2) have "int n < 2 ^ k" by (metis of_nat_less_iff of_nat_numeral of_nat_power)
  with nN have "N \<le> 2 ^ k" by simp
  then have "(of_int N :: rat) \<le> 2 ^ k" by (metis of_int_le_iff of_int_numeral of_int_power)
  moreover have "y \<le> of_int N" unfolding N_def by simp
  ultimately have yhi: "y \<le> 2 ^ k" by (rule order_trans [rotated])
  from b(1) have "(2::int) ^ (k - 1) \<le> int n" by (metis of_nat_le_iff of_nat_numeral of_nat_power)
  with nN have "(2::int) ^ (k - 1) \<le> N - 1" by simp
  then have "(2::rat) ^ (k - 1) \<le> of_int (N - 1)" by (metis of_int_le_iff of_int_numeral of_int_power)
  moreover have "of_int (N - 1) < y" unfolding N_def by linarith
  ultimately have ylo: "(2::rat) ^ (k - 1) < y" by (rule le_less_trans)
  have p: "(0::rat) < 2 ^ k" "(0::rat) < 2 ^ (k - 1)" by simp_all
  from yhi x p have lo: "1 / 2 ^ k \<le> x"
    unfolding y_def by (simp add: field_simps)
  from ylo x p have hi: "x < 1 / 2 ^ (k - 1)"
    unfolding y_def by (simp add: field_simps)
  have a: "(2::rat) powi (- int k) = 1 / 2 ^ k"
    by (simp add: power_int_minus field_simps)
  have "- int k + 1 = - int (k - 1)" using k by simp
  then have b': "(2::rat) powi (- int k + 1) = 1 / 2 ^ (k - 1)"
    by (simp only: power_int_minus power_int_of_nat) (simp add: field_simps)
  from lo hi show ?thesis unfolding e a b' by simp
qed

lemma pow2_mono: "a \<le> b \<Longrightarrow> (2::rat) powi a \<le> 2 powi b"
  by (rule power_int_increasing) simp_all

lemma pow2_less_exp: "(2::rat) powi a < 2 powi b \<Longrightarrow> a < b"
  using pow2_mono [of b a] by (cases "a < b") simp_all

lemma pow2_split: "(2::rat) powi (a + b) = 2 powi a * 2 powi b"
  by (rule power_int_add) simp

lemma pow2_scale: "(2::rat) powi (e + 1) = 2 ^ 53 * 2 powi (e - 52)"
proof -
  have "e + 1 = 53 + (e - 52)" by simp
  then have "(2::rat) powi (e + 1) = 2 powi (53 + (e - 52))" by (rule arg_cong)
  also have "\<dots> = 2 powi 53 * 2 powi (e - 52)" by (rule pow2_split)
  finally show ?thesis by simp
qed

lemma round_half_even_upper: "m \<le> of_int K \<Longrightarrow> round_half_even m \<le> K"
proof -
  assume m: "m \<le> of_int K"
  then have f: "\<lfloor>m\<rfloor> \<le> K" by (simp add: floor_le_iff)
  show ?thesis
  proof (cases "\<lfloor>m\<rfloor> = K")
    case True
    with m have "m - of_int \<lfloor>m\<rfloor> \<le> 0" by simp
    moreover have "0 \<le> m - of_int \<lfloor>m\<rfloor>" by simp
    ultimately have "m - of_int \<lfloor>m\<rfloor> = 0" by (rule antisym)
    with True show ?thesis by (simp add: round_half_even_def)
  next
    case False
    with f have "\<lfloor>m\<rfloor> + 1 \<le> K" by simp
    then show ?thesis by (simp add: round_half_even_def Let_def)
  qed
qed

lemma round_half_even_lower: "of_int K \<le> m \<Longrightarrow> K \<le> round_half_even m"
proof -
  assume "of_int K \<le> m"
  then have "K \<le> \<lfloor>m\<rfloor>" by (simp add: le_floor_iff)
  then show ?thesis by (simp add: round_half_even_def Let_def)
qed

lemma round_half_even_of_int: "round_half_even (of_int k) = k"
  by (simp add: round_half_even_def)

lemma round64_pos:
  assumes "0 < x"
  shows "round64 x =
    (let u = 2 powi (max (ilog2 x) (- 1022) - 52);
         q = of_int (round_half_even (x / u)) * u
     in if 2 powi 1024 \<le> q then PosInf else Finite q)"
  using assms by (simp add: round64_def Let_def)

lemma scaled_bounds:
  assumes "0 < x"
  defines "e \<equiv> max (ilog2 x) (- 1022)"
  defines "u \<equiv> (2::rat) powi (e - 52)"
  shows "0 < u" and "x / u < 2 ^ 53" and "0 \<le> round_half_even (x / u)"
    and "round_half_even (x / u) \<le> 2 ^ 53"
    and "of_int (round_half_even (x / u)) * u \<le> 2 powi (e + 1)"
proof -
  show u: "0 < u" by (simp add: u_def)
  from ilog2_bounds [OF assms(1)] have "x < 2 powi (ilog2 x + 1)" by simp
  also have "\<dots> \<le> 2 powi (e + 1)" by (rule pow2_mono) (simp add: e_def)
  also have "\<dots> = 2 ^ 53 * u"
    unfolding u_def by (rule pow2_scale)
  finally have "x < 2 ^ 53 * u" .
  with u show s: "x / u < 2 ^ 53" by (simp add: field_simps)
  from assms(1) u have "of_int 0 \<le> x / u" by simp
  then show "0 \<le> round_half_even (x / u)" by (rule round_half_even_lower)
  from s have "x / u \<le> of_int (2 ^ 53)" by simp
  then show r: "round_half_even (x / u) \<le> 2 ^ 53" by (rule round_half_even_upper)
  then have "(of_int (round_half_even (x / u)) :: rat) \<le> of_int (2 ^ 53)"
    by (simp only: of_int_le_iff)
  with u have "of_int (round_half_even (x / u)) * u \<le> of_int (2 ^ 53) * u"
    by (simp only: mult_le_cancel_right_pos)
  also have "of_int (2 ^ 53) * u = 2 powi (e + 1)"
    unfolding u_def pow2_scale by simp
  finally show "of_int (round_half_even (x / u)) * u \<le> 2 powi (e + 1)" .
qed

lemma ilog2_neg: "0 < x \<Longrightarrow> x < 1 \<Longrightarrow> ilog2 x \<le> - 1"
proof -
  assume x: "0 < x" "x < 1"
  from ilog2_bounds [OF x(1)] x(2) have "(2::rat) powi (ilog2 x) < 2 powi 0" by simp
  then have "ilog2 x < 0" by (rule pow2_less_exp)
  then show ?thesis by simp
qed

lemma round64_exact:
  assumes "0 \<le> n" and "n < 2 ^ 53"
  shows "round64 (of_int n) = Finite (of_int n)"
proof (cases "n = 0")
  case True
  then show ?thesis by (simp add: round64_def)
next
  case False
  with assms have n: "1 \<le> n" by simp
  define x :: rat where "x = of_int n"
  from n have x: "0 < x" "1 \<le> x" by (simp_all add: x_def)
  define e where "e = ilog2 x"
  from ilog2_bounds [OF x(1)] have b: "2 powi e \<le> x" "x < 2 powi (e + 1)"
    by (simp_all add: e_def)
  from x(2) b(2) have "(2::rat) powi 0 < 2 powi (e + 1)" by simp
  then have e0: "0 \<le> e" using pow2_less_exp [of 0 "e + 1"] by simp
  from assms(2) have "x < 2 ^ 53" unfolding x_def by (metis of_int_less_iff of_int_numeral of_int_power)
  with b(1) have "(2::rat) powi e < 2 powi 53" by simp
  then have e52: "e \<le> 52" using pow2_less_exp [of e 53] by simp
  define k where "k = nat (52 - e)"
  from e52 have k: "e - 52 = - int k" by (simp add: k_def)
  define u :: rat where "u = 2 powi (e - 52)"
  have u: "u = 1 / 2 ^ k" unfolding u_def k by (simp add: power_int_minus field_simps)
  have m: "x / u = of_int (n * 2 ^ k)" unfolding u x_def by simp
  have q: "of_int (round_half_even (x / u)) * u = x"
    unfolding m round_half_even_of_int unfolding u x_def by simp
  from e0 have mx: "max (ilog2 x) (- 1022) = e" by (simp add: e_def)
  have "x < 2 powi 1024" using \<open>x < 2 ^ 53\<close> by simp
  then have "\<not> 2 powi 1024 \<le> x" by simp
  then have "round64 x = Finite x"
    unfolding round64_pos [OF x(1)] mx Let_def
    unfolding u_def [symmetric] q by (simp only: if_False)
  then show ?thesis by (simp only: x_def)
qed

lemma round64_unit:
  assumes "0 \<le> x" and "x \<le> 1"
  shows "\<exists>q. round64 x = Finite q \<and> 0 \<le> q \<and> q \<le> 1"
proof -
  consider "x = 0" | "x = 1" | "0 < x" "x < 1" using assms by linarith
  then show ?thesis
  proof cases
    case 1
    then show ?thesis by (simp add: round64_def)
  next
    case 2
    with round64_exact [of 1] show ?thesis by simp
  next
    case 3
    define e where "e = max (ilog2 x) (- 1022)"
    define u :: rat where "u = 2 powi (e - 52)"
    define q :: rat where "q = of_int (round_half_even (x / u)) * u"
    note sb = scaled_bounds [OF 3(1), folded e_def u_def]
    from ilog2_neg [OF 3] have "e + 1 \<le> 0" by (simp add: e_def)
    then have "(2::rat) powi (e + 1) \<le> 2 powi 0" by (rule pow2_mono)
    with sb(5) have q1: "q \<le> 1" by (simp add: q_def)
    from sb(1,3) have q0: "0 \<le> q" by (simp add: q_def)
    from q1 have "\<not> 2 powi 1024 \<le> q" by simp
    then have "round64 x = Finite q"
      unfolding round64_pos [OF 3(1)] Let_def
      unfolding e_def [symmetric] u_def [symmetric] q_def [symmetric]
      by (simp only: if_False)
    with q0 q1 show ?thesis by blast
  qed
qed

lemma round64_below_one:
  assumes "0 \<le> x" and "x \<le> 64 / 65"
  shows "\<exists>q. round64 x = Finite q \<and> 0 \<le> q \<and> q < 1"
proof (cases "x = 0")
  case True
  then show ?thesis by (simp add: round64_def)
next
  case False
  with assms have x: "0 < x" "x < 1" by simp_all
  define e where "e = max (ilog2 x) (- 1022)"
  define u :: rat where "u = 2 powi (e - 52)"
  define q :: rat where "q = of_int (round_half_even (x / u)) * u"
  note sb = scaled_bounds [OF x(1), folded e_def u_def]
  from ilog2_neg [OF x] have e: "e \<le> - 1" by (simp add: e_def)
  from sb(1,3) have q0: "0 \<le> q" by (simp add: q_def)
  have q1: "q < 1"
  proof (cases "e = - 1")
    case True
    then have u: "u = 1 / 2 ^ 53" by (simp add: u_def)
    from assms(2) have "x / u \<le> of_int (2 ^ 53 - 1)" unfolding u by simp
    then have "round_half_even (x / u) \<le> 2 ^ 53 - 1" by (rule round_half_even_upper)
    then have "(of_int (round_half_even (x / u)) :: rat) \<le> of_int (2 ^ 53 - 1)"
      by (simp only: of_int_le_iff)
    then show ?thesis unfolding q_def u by simp
  next
    case False
    with e have "e + 1 \<le> - 1" by simp
    then have "(2::rat) powi (e + 1) \<le> 2 powi (- 1)" by (rule pow2_mono)
    with sb(5) show ?thesis by (simp add: q_def)
  qed
  then have "\<not> 2 powi 1024 \<le> q" by simp
  then have "round64 x = Finite q"
    unfolding round64_pos [OF x(1)] Let_def
    unfolding e_def [symmetric] u_def [symmetric] q_def [symmetric]
    by (simp only: if_False)
  with q0 q1 show ?thesis by blast
qed

lemma float64_of_int_large:
  assumes "65 \<le> n"
  shows "float64_of_int n = PosInf \<or> (\<exists>d. float64_of_int n = Finite d \<and> 65 \<le> d)"
proof -
  define x :: rat where "x = of_int n"
  from assms have x: "0 < x" "65 \<le> x" by (simp_all add: x_def)
  define e where "e = ilog2 x"
  from ilog2_bounds [OF x(1)] have b: "2 powi e \<le> x" "x < 2 powi (e + 1)"
    by (simp_all add: e_def)
  from x(2) b(2) have "(2::rat) powi 6 < 2 powi (e + 1)" by simp
  then have e6: "6 \<le> e" using pow2_less_exp [of 6 "e + 1"] by simp
  then have mx: "max (ilog2 x) (- 1022) = e" by (simp add: e_def)
  define u :: rat where "u = 2 powi (e - 52)"
  define q :: rat where "q = of_int (round_half_even (x / u)) * u"
  have u0: "0 < u" by (simp add: u_def)
  have q65: "65 \<le> q"
  proof (cases "e \<le> 52")
    case True
    define k where "k = nat (52 - e)"
    from True have k: "e - 52 = - int k" by (simp add: k_def)
    have u: "u = 1 / 2 ^ k" unfolding u_def k by (simp add: power_int_minus field_simps)
    from x(2) have "of_int (65 * 2 ^ k) \<le> x / u" unfolding u by simp
    then have "65 * 2 ^ k \<le> round_half_even (x / u)" by (rule round_half_even_lower)
    then have "(of_int (65 * 2 ^ k) :: rat) \<le> of_int (round_half_even (x / u))"
      by (simp only: of_int_le_iff)
    with u0 have "of_int (65 * 2 ^ k) * u \<le> q"
      unfolding q_def by (simp only: mult_le_cancel_right_pos)
    then show ?thesis unfolding u by simp
  next
    case False
    then have e53: "53 \<le> e" by simp
    have s: "(2::rat) powi e = 2 ^ 52 * u"
    proof -
      have "e = 52 + (e - 52)" by simp
      then have "(2::rat) powi e = 2 powi (52 + (e - 52))" by (rule arg_cong)
      also have "\<dots> = 2 powi 52 * 2 powi (e - 52)" by (rule pow2_split)
      finally show ?thesis by (simp add: u_def)
    qed
    from b(1) u0 have "of_int (2 ^ 52) \<le> x / u" unfolding s by (simp add: field_simps)
    then have "2 ^ 52 \<le> round_half_even (x / u)" by (rule round_half_even_lower)
    then have "(of_int (2 ^ 52) :: rat) \<le> of_int (round_half_even (x / u))"
      by (simp only: of_int_le_iff)
    with u0 have "of_int (2 ^ 52) * u \<le> q"
      unfolding q_def by (simp only: mult_le_cancel_right_pos)
    then have "2 powi e \<le> q" unfolding s by simp
    moreover from e53 have "(2::rat) powi 53 \<le> 2 powi e" by (rule pow2_mono)
    ultimately show ?thesis by simp
  qed
  have "round64 x = (if 2 powi 1024 \<le> q then PosInf else Finite q)"
    unfolding round64_pos [OF x(1)] mx Let_def
    unfolding u_def [symmetric] q_def [symmetric] ..
  with q65 show ?thesis
    unfolding float64_of_int_def x_def [symmetric] by (cases "2 powi 1024 \<le> q") simp_all
qed

lemma float64_of_int_small:
  "0 \<le> n \<Longrightarrow> n \<le> 64 \<Longrightarrow> float64_of_int n = Finite (of_int n)"
  unfolding float64_of_int_def by (rule round64_exact) simp_all

lemma rate_unit:
  assumes "1 \<le> days" and "t \<le> window days"
  shows "\<exists>q. float64_div (float64_of_int (int t)) (float64_of_int days) = Finite q
             \<and> 0 \<le> q \<and> q \<le> 1 \<and> (64 < days \<longrightarrow> q < 1)"
proof (cases "days \<le> 64")
  case True
  with assms have w: "window days = nat days" and t: "int t \<le> days" "int t \<le> 64"
    by (simp_all add: window_def)
  from t(2) have ft: "float64_of_int (int t) = Finite (of_nat t)"
    using float64_of_int_small [of "int t"] by simp
  from assms(1) True have fd: "float64_of_int days = Finite (of_int days)"
    by (simp add: float64_of_int_small)
  from assms(1) t(1) have "0 \<le> (of_nat t :: rat) / of_int days"
    "(of_nat t :: rat) / of_int days \<le> 1"
    by (simp_all add: field_simps)
  from round64_unit [OF this] assms(1) True show ?thesis
    unfolding ft fd by auto
next
  case False
  then have big: "65 \<le> days" by simp
  from assms(2) window_range [of days] have t: "int t \<le> 64" by simp
  then have ft: "float64_of_int (int t) = Finite (of_nat t)"
    using float64_of_int_small [of "int t"] by simp
  from float64_of_int_large [OF big] show ?thesis
  proof
    assume "float64_of_int days = PosInf"
    then show ?thesis unfolding ft by simp
  next
    assume "\<exists>d. float64_of_int days = Finite d \<and> 65 \<le> d"
    then obtain d where d: "float64_of_int days = Finite d" "65 \<le> d" by blast
    from t have "(of_nat t :: rat) \<le> 64" by (metis of_int_le_iff of_int_numeral of_int_of_nat_eq)
    with d(2) have "0 \<le> of_nat t / d" "of_nat t / d \<le> 64 / 65"
      by (simp_all add: field_simps)
    from round64_below_one [OF this] d show ?thesis
      unfolding ft by auto
  qed
qed


lemma ilog2_five_sevenths: "ilog2 (5 / 7) = - 1"
proof -
  have "\<lceil>(7::rat) / 5\<rceil> = 2" by (rule ceiling_unique) simp_all
  then show ?thesis by (simp add: ilog2_def floorlog_def)
qed

lemma round_half_even_five_sevenths: "round_half_even (5 / 7 / 2 powi (- 53)) = 6433713753386423"
proof -
  have "\<lfloor>(45035996273704960::rat) / 7\<rfloor> = 6433713753386422"
    by (rule floor_unique) simp_all
  then show ?thesis by (simp add: round_half_even_def Let_def power_int_minus)
qed

lemma round64_five_sevenths: "round64 (5 / 7) = Finite (6433713753386423 / 9007199254740992)"
proof -
  have e: "max (ilog2 (5 / 7)) (- 1022) - 52 = - 53" by (simp add: ilog2_five_sevenths)
  have pos: "(0::rat) < 5 / 7" by simp
  have "round64 (5 / 7) =
      (if (2::rat) powi 1024 \<le> of_int 6433713753386423 * 2 powi (- 53) then PosInf
       else Finite (of_int 6433713753386423 * 2 powi (- 53)))"
    by (simp only: round64_pos [OF pos] e Let_def round_half_even_five_sevenths)
  then show ?thesis by (simp add: power_int_minus)
qed

lemma all_marked_card: "card {j. j < 64 \<and> bit (- 1 :: CheckinRecord) j} = 64"
proof -
  have "{j. j < 64 \<and> bit (- 1 :: CheckinRecord) j} = {..<64}"
    by (auto simp add: bit_minus_1_iff)
  then show ?thesis by simp
qed

lemma CheckinRate_div:
  "1 \<le> days \<Longrightarrow>
   CheckinRate c days =
     Some (float64_div (Finite (of_nat (card {j. j < window days \<and> bit c j})))
       (float64_of_int days))"
proof -
  assume d: "1 \<le> days"
  let ?t = "card {j. j < window days \<and> bit c j}"
  from card_below [of "window days" "bit c"] window_range [of days]
  have "int ?t \<le> 64" by simp
  then have "float64_of_int (int ?t) = Finite (of_nat ?t)"
    using float64_of_int_small [of "int ?t"] by simp
  with d show ?thesis
    by (simp add: CheckinRate_def TotalDaysInPeriod_count)
qed

lemma round64_half: "round64 (1 / 2) = Finite (1 / 2)"
proof -
  have pos: "(0::rat) < 1 / 2" by simp
  have "ilog2 (1 / 2) = - 1" by (simp add: ilog2_def floorlog_def)
  then have e: "max (ilog2 (1 / 2)) (- 1022) - 52 = - 53" by simp
  have "(1::rat) / 2 / 2 powi (- 53) = of_int (2 ^ 52)" by (simp add: power_int_minus)
  then have half: "round_half_even (1 / 2 / 2 powi (- 53)) = 2 ^ 52"
    by (simp only: round_half_even_of_int)
  have "round64 (1 / 2) =
      (if (2::rat) powi 1024 \<le> of_int (2 ^ 52) * 2 powi (- 53) then PosInf
       else Finite (of_int (2 ^ 52) * 2 powi (- 53)))"
    by (simp only: round64_pos [OF pos] e Let_def half)
  then show ?thesis by (simp add: power_int_minus)
qed

lemma CheckinRate_exact:
  assumes "1 \<le> days" and "days < 2 ^ 53"
  shows "CheckinRate c days =
    Some (round64 (of_nat (card {j. j < window days \<and> bit c j}) / of_int days))"
proof -
  from assms have "float64_of_int days = Finite (of_int days)"
    unfolding float64_of_int_def by (intro round64_exact) simp_all
  with assms show ?thesis by (simp add: CheckinRate_div)
qed

section \<open>The check-in rate\<close>

text \<open>
  C2. \<^verbatim>\<open>CheckinRate\<close> returns 0 when the days are at most 0. From 1 day on it returns
  the \<^verbatim>\<open>float64\<close> quotient of the total of the window, whose length is clamped, by the
  days as the caller gave them, which are not clamped (below \<open>2 ^ 53\<close> the days convert
  exactly, so the result is the exact ratio rounded once); beyond 64 days the numerator
  is the number of set bits of the whole record, and for the record with all 64 bits
  set the result is the quotient of 64 by the days, below 1. The result is always a
  finite number between 0 and 1. The record \<^verbatim>\<open>0b1011101\<close> over 7 days gives the double
  nearest to 5/7.
\<close>

theorem CheckinRate_ratio:
  "(days \<le> 0 \<longrightarrow> CheckinRate c days = Some (Finite 0))
   \<and> (1 \<le> days \<longrightarrow> CheckinRate c days =
         Some (float64_div (Finite (of_nat (card {j. j < window days \<and> bit c j})))
           (float64_of_int days)))
   \<and> (1 \<le> days \<and> days < 2 ^ 53 \<longrightarrow> CheckinRate c days =
         Some (round64 (of_nat (card {j. j < window days \<and> bit c j}) / of_int days)))
   \<and> (64 < days \<longrightarrow> CheckinRate c days =
         Some (float64_div (Finite (of_nat (card {j. j < 64 \<and> bit c j})))
           (float64_of_int days)))
   \<and> (64 < days \<longrightarrow>
         (\<exists>q. CheckinRate (- 1) days = Some (float64_div (Finite 64) (float64_of_int days))
            \<and> float64_div (Finite 64) (float64_of_int days) = Finite q \<and> 0 \<le> q \<and> q < 1))
   \<and> (\<exists>q. CheckinRate c days = Some (Finite q) \<and> 0 \<le> q \<and> q \<le> 1)
   \<and> CheckinRate 93 7 = Some (Finite (6433713753386423 / 9007199254740992))"
proof -
  have zero: "days \<le> 0 \<longrightarrow> CheckinRate c days = Some (Finite 0)"
    by (simp add: CheckinRate_def)
  have quot: "1 \<le> days \<longrightarrow> CheckinRate c days =
      Some (float64_div (Finite (of_nat (card {j. j < window days \<and> bit c j})))
        (float64_of_int days))"
    by (simp add: CheckinRate_div)
  have exact: "1 \<le> days \<and> days < 2 ^ 53 \<longrightarrow> CheckinRate c days =
      Some (round64 (of_nat (card {j. j < window days \<and> bit c j}) / of_int days))"
    by (simp add: CheckinRate_exact)
  have beyond: "64 < days \<longrightarrow> CheckinRate c days =
      Some (float64_div (Finite (of_nat (card {j. j < 64 \<and> bit c j}))) (float64_of_int days))"
  proof
    assume d: "64 < days"
    then have "window days = 64" by (simp add: window_def)
    with d CheckinRate_div [of days c]
    show "CheckinRate c days =
        Some (float64_div (Finite (of_nat (card {j. j < 64 \<and> bit c j}))) (float64_of_int days))"
      by simp
  qed
  have unit: "\<exists>q. CheckinRate c days = Some (Finite q) \<and> 0 \<le> q \<and> q \<le> 1"
  proof (cases "days \<le> 0")
    case True
    then show ?thesis by (simp add: CheckinRate_def)
  next
    case False
    then have d: "1 \<le> days" by simp
    let ?t = "card {j. j < window days \<and> bit c j}"
    have t: "?t \<le> window days" by (rule card_below)
    from t window_range [of days] have "int ?t \<le> 64" by simp
    then have ft: "float64_of_int (int ?t) = Finite (of_nat ?t)"
      using float64_of_int_small [of "int ?t"] by simp
    from rate_unit [OF d t] show ?thesis
      unfolding CheckinRate_div [OF d] ft by blast
  qed
  have full: "64 < days \<longrightarrow>
      (\<exists>q. CheckinRate (- 1) days = Some (float64_div (Finite 64) (float64_of_int days))
         \<and> float64_div (Finite 64) (float64_of_int days) = Finite q \<and> 0 \<le> q \<and> q < 1)"
  proof
    assume d: "64 < days"
    then have w: "window days = 64" and d1: "1 \<le> days" by (simp_all add: window_def)
    have r: "CheckinRate (- 1) days = Some (float64_div (Finite 64) (float64_of_int days))"
      unfolding CheckinRate_div [OF d1] w all_marked_card by simp
    have f64: "float64_of_int (int 64) = Finite 64"
      using float64_of_int_small [of 64] by simp
    from rate_unit [OF d1, of 64] w d
    obtain q where "float64_div (Finite 64) (float64_of_int days) = Finite q" "0 \<le> q" "q < 1"
      unfolding f64 by auto
    with r show "\<exists>q. CheckinRate (- 1) days = Some (float64_div (Finite 64) (float64_of_int days))
         \<and> float64_div (Finite 64) (float64_of_int days) = Finite q \<and> 0 \<le> q \<and> q < 1"
      by blast
  qed
  have "card {j. j < window 7 \<and> bit (93 :: CheckinRecord) j} = 5"
  proof -
    have "TotalDaysInPeriod 93 7 = Some 5"
      by (simp add: TotalDaysInPeriod_def TotalDaysInPeriod_loop_step)
    then show ?thesis by (simp add: TotalDaysInPeriod_count)
  qed
  then have test: "CheckinRate 93 7 = Some (Finite (6433713753386423 / 9007199254740992))"
    using CheckinRate_exact [of 7 93] by (simp add: round64_five_sevenths)
  from zero quot exact beyond full unit test show ?thesis by blast
qed

theorem CheckinRate_ratio_witness:
  "(0::int) \<le> 0 \<and> CheckinRate 93 0 = Some (Finite 0)
   \<and> (1::int) \<le> 7 \<and> (7::int) < 2 ^ 53
   \<and> CheckinRate 93 7 = Some (round64 (of_nat (card {j. j < window 7 \<and> bit (93 :: CheckinRecord) j}) / of_int 7))
   \<and> CheckinRate 93 7 = Some (Finite (6433713753386423 / 9007199254740992))
   \<and> (64::int) < 128 \<and> CheckinRate (- 1) 128 = Some (Finite (1 / 2)) \<and> (1 / 2 :: rat) < 1"
proof -
  have h: "(0::int) \<le> 0" "(1::int) \<le> 7 \<and> (7::int) < 2 ^ 53" "(64::int) < 128"
    by simp_all
  from CheckinRate_ratio [of 0 93] h(1) have a: "CheckinRate 93 0 = Some (Finite 0)"
    by blast
  from CheckinRate_ratio [of 7 93] h(2)
  have b: "CheckinRate 93 7 = Some (round64 (of_nat (card {j. j < window 7 \<and> bit (93 :: CheckinRecord) j}) / of_int 7))"
    "CheckinRate 93 7 = Some (Finite (6433713753386423 / 9007199254740992))"
    by blast+
  from CheckinRate_ratio [of 128 "- 1"] h(3)
  have "CheckinRate (- 1) 128 = Some (float64_div (Finite 64) (float64_of_int 128))"
    by blast
  moreover have "float64_of_int 128 = Finite 128"
    unfolding float64_of_int_def using round64_exact [of 128] by simp
  ultimately have c: "CheckinRate (- 1) 128 = Some (Finite (1 / 2))"
    by (simp add: round64_half)
  have "(1 / 2 :: rat) < 1" by simp
  with a b c h show ?thesis by blast
qed

end
